theory Spec2Isabelle
  imports Complex_Main "HOL-Library.Sublist" "HOL-Library.AList" "HOL-Library.Multiset"
    "HOL-Library.Char_ord" "HOL-Library.List_Lexorder"
begin

section \<open>Values, the object store and the host\<close>

text \<open>
  The engine of \<^verbatim>\<open>src/executor.ts\<close> works on plain JavaScript data: the fact payload is
  cloned with \<^verbatim>\<open>JSON.parse(JSON.stringify(input))\<close> and then mutated in place through
  dotted paths. Objects and arrays have identity (\<^verbatim>\<open>===\<close> compares references, and a
  write through one reference is seen through every other), so they live in an explicit
  store: a list of cells, an address is an index, allocation appends a cell.

  Numbers are IEEE doubles in the source; here they are rationals, which contain every
  finite double. Rounding, \<^verbatim>\<open>NaN\<close> and the infinities are not represented. Property order
  of an object is insertion order (an association list). Members inherited from the
  built-in prototypes (\<^verbatim>\<open>constructor\<close>, \<^verbatim>\<open>toString\<close>, ...) are not represented: a
  property read finds own properties, array and string indices, and \<^verbatim>\<open>length\<close>.
\<close>

type_synonym addr = nat

datatype val =
    Undefined
  | Null
  | Bool bool
  | Num rat
  | Str string
  | Ref addr

datatype cell =
    Obj "(string \<times> val) list"
  | Arr "val list"

type_synonym heap = "cell list"

datatype json =
    JNull
  | JBool bool
  | JNum rat
  | JStr string
  | JArr "json list"
  | JObj "(string \<times> json) list"

datatype error = TypeError | SyntaxError | Unmodelled

text \<open>
  What the source takes from the JavaScript runtime and the claims do not depend on:
  the regular-expression engine (\<^verbatim>\<open>new RegExp(pattern, flags)\<close> raises a SyntaxError on a
  malformed pattern, modelled as \<open>None\<close>; otherwise it yields the \<^verbatim>\<open>test\<close> predicate),
  the collation \<^verbatim>\<open>a.localeCompare(b)\<close>, and \<^verbatim>\<open>String(x)\<close> on a number or on an
  object or array.
\<close>

record host =
  RegExp :: "string \<Rightarrow> bool \<Rightarrow> (string \<Rightarrow> bool) option"
  localeCompare :: "string \<Rightarrow> string \<Rightarrow> int"
  numberToString :: "rat \<Rightarrow> string"
  objectToString :: "heap \<Rightarrow> addr \<Rightarrow> string"

definition cellAt :: "heap \<Rightarrow> addr \<Rightarrow> cell option" where
  "cellAt h a = (if a < length h then Some (h ! a) else None)"

subsection \<open>Decimal numerals and array indices\<close>

definition digitChar :: "nat \<Rightarrow> char" where
  "digitChar d = char_of (48 + d)"

fun showNat :: "nat \<Rightarrow> string" where
  "showNat n = (if n < 10 then [digitChar n] else showNat (n div 10) @ [digitChar (n mod 10)])"

declare showNat.simps [simp del]

definition isDigit :: "char \<Rightarrow> bool" where
  "isDigit c = (48 \<le> (of_char c :: nat) \<and> (of_char c :: nat) \<le> 57)"

definition readNat :: "string \<Rightarrow> nat" where
  "readNat s = foldl (\<lambda>n c. 10 * n + ((of_char c :: nat) - 48)) 0 s"

definition arrayIndex :: "string \<Rightarrow> nat option" where
  \<comment> \<open>a canonical array index: decimal digits without a leading zero\<close>
  "arrayIndex key =
     (if key \<noteq> [] \<and> list_all isDigit key \<and> (key = ''0'' \<or> hd key \<noteq> CHR ''0'')
      then Some (readNat key) else None)"

subsection \<open>Property reads and dotted paths\<close>

fun splitOn :: "char \<Rightarrow> string \<Rightarrow> string list" where
  "splitOn sep [] = [[]]"
| "splitOn sep (c # cs) =
     (if c = sep then [] # splitOn sep cs
      else (case splitOn sep cs of [] \<Rightarrow> [[c]] | w # ws \<Rightarrow> (c # w) # ws))"

definition splitPath :: "string \<Rightarrow> string list" where
  \<comment> \<open>\<^verbatim>\<open>path.split('.')\<close>\<close>
  "splitPath pth = splitOn CHR ''.'' pth"

definition lookupProp :: "(string \<times> val) list \<Rightarrow> string \<Rightarrow> val" where
  "lookupProp kvs key = (case map_of kvs key of None \<Rightarrow> Undefined | Some v \<Rightarrow> v)"

definition indexProp :: "val list \<Rightarrow> string \<Rightarrow> val" where
  "indexProp xs key =
     (if key = ''length'' then Num (of_nat (length xs))
      else (case arrayIndex key of
              None \<Rightarrow> Undefined
            | Some i \<Rightarrow> (if i < length xs then xs ! i else Undefined)))"

definition getProp :: "heap \<Rightarrow> val \<Rightarrow> string \<Rightarrow> val" where
  \<comment> \<open>\<^verbatim>\<open>acc[key]\<close> for \<open>acc\<close> neither null nor undefined\<close>
  "getProp h acc key =
     (case acc of
        Ref a \<Rightarrow> (case cellAt h a of
                    Some (Obj kvs) \<Rightarrow> lookupProp kvs key
                  | Some (Arr xs) \<Rightarrow> indexProp xs key
                  | None \<Rightarrow> Undefined)
      | Str s \<Rightarrow> indexProp (map (\<lambda>c. Str [c]) s) key
      | _ \<Rightarrow> Undefined)"

definition getPathValue :: "heap \<Rightarrow> val \<Rightarrow> string \<Rightarrow> val" where
  "getPathValue h obj pth =
     foldl (\<lambda>acc key. if acc \<noteq> Null \<and> acc \<noteq> Undefined then getProp h acc key else Undefined)
       obj (splitPath pth)"

section \<open>The program model\<close>

datatype literal = LStr string | LNum rat | LBool bool | LNull

fun litVal :: "literal \<Rightarrow> val" where
  "litVal (LStr s) = Str s"
| "litVal (LNum n) = Num n"
| "litVal (LBool b) = Bool b"
| "litVal LNull = Null"

datatype Operand =
    Fact string "string option"
  | Value literal "string option"

datatype CompareKind = KCompare | KComparison

datatype BoolKind = KAll | KAnd | KAny | KOr

datatype Condition =
    Compare CompareKind Operand string Operand
  | Exists Operand
  | In Operand "Operand list"
  | Matches Operand string "bool option"
  | NotCond Condition
  | Boolean BoolKind "Condition list"

datatype Details =
    CompareDetails val val string
  | ExistsDetails val
  | InDetails val "val list"
  | MatchesDetails val string

datatype ConditionTrace =
  ConditionTrace (condition: Condition) (result: bool) (details: "Details option")
    (children: "ConditionTrace list option")

section \<open>The condition evaluator\<close>

definition evaluateOperand :: "heap \<Rightarrow> val \<Rightarrow> Operand \<Rightarrow> val" where
  "evaluateOperand h data operand =
     (case operand of Fact p _ \<Rightarrow> getPathValue h data p | Value l _ \<Rightarrow> litVal l)"

fun includesStr :: "string \<Rightarrow> string \<Rightarrow> bool" where
  \<comment> \<open>\<^verbatim>\<open>s.includes(p)\<close>\<close>
  "includesStr [] p = (p = [])"
| "includesStr (c # s) p = (prefix p (c # s) \<or> includesStr s p)"

definition isNumber :: "val \<Rightarrow> bool" where
  "isNumber v = (case v of Num _ \<Rightarrow> True | _ \<Rightarrow> False)"

definition numOf :: "val \<Rightarrow> rat" where
  "numOf v = (case v of Num n \<Rightarrow> n | _ \<Rightarrow> 0)"

definition arrayOf :: "heap \<Rightarrow> val \<Rightarrow> val list option" where
  \<comment> \<open>the elements when \<^verbatim>\<open>Array.isArray(v)\<close>\<close>
  "arrayOf h v =
     (case v of
        Ref a \<Rightarrow> (case cellAt h a of Some (Arr xs) \<Rightarrow> Some xs | _ \<Rightarrow> None)
      | _ \<Rightarrow> None)"

definition toStringJS :: "host \<Rightarrow> heap \<Rightarrow> val \<Rightarrow> string" where
  \<comment> \<open>\<^verbatim>\<open>String(v)\<close>\<close>
  "toStringJS H h v =
     (case v of
        Undefined \<Rightarrow> ''undefined''
      | Null \<Rightarrow> ''null''
      | Bool b \<Rightarrow> (if b then ''true'' else ''false'')
      | Num n \<Rightarrow> numberToString H n
      | Str s \<Rightarrow> s
      | Ref a \<Rightarrow> objectToString H h a)"

definition evaluateComparison :: "host \<Rightarrow> heap \<Rightarrow> val \<Rightarrow> string \<Rightarrow> val \<Rightarrow> bool" where
  "evaluateComparison H h lhs operator rhs =
     (if operator = ''eq'' \<or> operator = ''=='' then lhs = rhs
      else if operator = ''neq'' \<or> operator = ''!='' then lhs \<noteq> rhs
      else if operator = ''gt'' \<or> operator = ''>'' then
        isNumber lhs \<and> isNumber rhs \<and> numOf lhs > numOf rhs
      else if operator = ''gte'' \<or> operator = ''>='' then
        isNumber lhs \<and> isNumber rhs \<and> numOf lhs \<ge> numOf rhs
      else if operator = ''lt'' \<or> operator = ''<'' then
        isNumber lhs \<and> isNumber rhs \<and> numOf lhs < numOf rhs
      else if operator = ''lte'' \<or> operator = ''<='' then
        isNumber lhs \<and> isNumber rhs \<and> numOf lhs \<le> numOf rhs
      else if operator = ''contains'' then
        (case lhs of
           Str s \<Rightarrow> includesStr s (toStringJS H h rhs)
         | _ \<Rightarrow> (case arrayOf h lhs of Some xs \<Rightarrow> rhs \<in> set xs | None \<Rightarrow> False))
      else if operator = ''in'' then
        (case arrayOf h rhs of Some xs \<Rightarrow> lhs \<in> set xs | None \<Rightarrow> False)
      else False)"

fun evaluateCondition :: "host \<Rightarrow> heap \<Rightarrow> Condition \<Rightarrow> val \<Rightarrow> ConditionTrace" where
  "evaluateCondition H h (Compare k l operator r) data =
     (let lhs = evaluateOperand h data l;
          rhs = evaluateOperand h data r;
          res = (if lhs \<noteq> Undefined \<and> rhs \<noteq> Undefined
                 then evaluateComparison H h lhs operator rhs else False)
      in ConditionTrace (Compare k l operator r) res
           (Some (CompareDetails lhs rhs operator)) None)"
| "evaluateCondition H h (Exists f) data =
     (let v = evaluateOperand h data f;
          res = (v \<noteq> Undefined \<and> v \<noteq> Null)
      in ConditionTrace (Exists f) res (Some (ExistsDetails v)) None)"
| "evaluateCondition H h (In v opts) data =
     (let x = evaluateOperand h data v;
          options = map (evaluateOperand h data) opts;
          res = (x \<in> set options)
      in ConditionTrace (In v opts) res (Some (InDetails x options)) None)"
| "evaluateCondition H h (Matches v pattern caseInsensitive) data =
     (let x = evaluateOperand h data v;
          res = (case x of
                   Str s \<Rightarrow> (case RegExp H pattern (caseInsensitive = Some True) of
                               Some test \<Rightarrow> test s
                             | None \<Rightarrow> includesStr s pattern)
                 | _ \<Rightarrow> False)
      in ConditionTrace (Matches v pattern caseInsensitive) res
           (Some (MatchesDetails x pattern)) None)"
| "evaluateCondition H h (NotCond c) data =
     (let child = evaluateCondition H h c data
      in ConditionTrace (NotCond c) (\<not> result child) None (Some [child]))"
| "evaluateCondition H h (Boolean k cs) data =
     (let childTraces = map (\<lambda>c. evaluateCondition H h c data) cs;
          res = (if k = KAll \<or> k = KAnd then list_all result childTraces
                 else list_ex result childTraces)
      in ConditionTrace (Boolean k cs) res None (Some childTraces))"

section \<open>Rules, programs, options and results\<close>

text \<open>
  The types of \<^verbatim>\<open>src/types.ts\<close> (the variant with \<^verbatim>\<open>then\<close>/\<^verbatim>\<open>else\<close>, \<^verbatim>\<open>exists\<close>,
  \<^verbatim>\<open>matches\<close>, \<^verbatim>\<open>increment\<close> and \<^verbatim>\<open>append\<close>, which \<^verbatim>\<open>src/executor.ts\<close> imports).
  An optional field is an \<open>option\<close>. Fields that no modelled function reads
  (\<^verbatim>\<open>description\<close>, \<^verbatim>\<open>tags\<close>, \<^verbatim>\<open>domain\<close>, \<^verbatim>\<open>entities\<close>, \<^verbatim>\<open>clock\<close>, \<^verbatim>\<open>debugTrace\<close>) are left
  out. Field names carry the record's name as a prefix.
\<close>

text \<open>
  The constructors carry, in this order: \<^verbatim>\<open>set\<close> target and value operand; \<^verbatim>\<open>increment\<close>
  target and numeric value; \<^verbatim>\<open>append\<close> target and value operand; \<^verbatim>\<open>emit\<close> event and
  optional payload; \<^verbatim>\<open>route\<close> \<^verbatim>\<open>toQueue\<close> and optional reason. An operand is a fact with
  its path or a literal value, each with optional units.
\<close>

datatype Action =
    SetA string Operand
  | IncrementA string rat
  | AppendA string Operand
  | EmitA string "json option"
  | RouteA string "string option"

fun actionKind :: "Action \<Rightarrow> string" where
  "actionKind (SetA _ _) = ''set''"
| "actionKind (IncrementA _ _) = ''increment''"
| "actionKind (AppendA _ _) = ''append''"
| "actionKind (EmitA _ _) = ''emit''"
| "actionKind (RouteA _ _) = ''route''"

record Rule =
  rule_id :: string
  rule_name :: string
  rule_priority :: "rat option"
  rule_mode :: "string option"
  rule_when :: Condition
  rule_then :: "Action list option"
  rule_else :: "Action list option"
  rule_actions :: "Action list option"
  rule_stopProcessing :: "bool option"

record Constraint =
  constraint_id :: string
  constraint_assert :: Condition
  constraint_severity :: "string option"

record Example =
  example_id :: string
  example_input :: json
  example_expected :: json

record Program =
  rules :: "Rule list"
  constraints :: "Constraint list option"
  examples :: "Example list option"
  config_ruleEvaluation :: "string option"

record ExecutionOptions =
  opt_mode :: "string option"
  opt_maxRuleFirings :: "rat option"
  opt_enableActions :: "bool option"
  opt_loopUntilSettled :: "bool option"
  opt_evaluateExamples :: "bool option"

record ActionTrace =
  at_action :: Action
  at_applied :: bool
  at_path :: "string option"
  at_beforeValue :: "val option"
  at_afterValue :: "val option"
  at_actionId :: string
  at_ruleId :: string
  at_conflict :: "bool option"

record StateDiff =
  sd_path :: string
  sd_before :: val
  sd_after :: val

record NormalizedActionLog =
  log_actionId :: string
  log_ruleId :: string
  log_kind :: string
  log_path :: "string option"
  log_before :: "val option"
  log_after :: "val option"
  log_payload :: "json option"

record RuleTrace =
  rt_ruleId :: string
  rt_ruleName :: string
  rt_priority :: "rat option"
  rt_evaluatedWhen :: bool
  rt_why :: ConditionTrace
  rt_actionsApplied :: "ActionTrace list"
  rt_stateDiff :: "StateDiff list"
  rt_stopProcessing :: "bool option"
  rt_warnings :: "string list option"

record ConstraintResult =
  cr_constraint :: Constraint
  cr_passed :: bool
  cr_trace :: ConditionTrace

record ConstraintReport =
  passed :: "ConstraintResult list"
  failed :: "ConstraintResult list"
  hasFailures :: bool
  hasErrors :: bool
  errorCount :: nat
  warningCount :: nat

record ExampleResult =
  er_example :: Example
  er_passed :: bool
  er_actualOutput :: val
  er_constraints :: ConstraintReport
  er_trace :: "RuleTrace list"

record ExecutionResult =
  resultState :: val
  actions :: "NormalizedActionLog list"
  trace :: "RuleTrace list"
  constraintReport :: ConstraintReport
  testReport :: "ExampleResult list option"
  success :: bool
  conflictWarnings :: "string list option"
  ruleFirings :: nat
  hitRuleLimit :: bool

section \<open>Writing through a dotted path\<close>

text \<open>
  \<^verbatim>\<open>current[key] = value\<close>. The compiled module is strict-mode code, so an assignment to a
  property of a primitive raises a TypeError, as does any property access on \<^verbatim>\<open>null\<close> or
  \<^verbatim>\<open>undefined\<close>. A write into an array (an index, \<^verbatim>\<open>length\<close>, or a named property of the
  array object) is outside the model and reported as \<open>Unmodelled\<close>.
\<close>

definition setProp :: "heap \<Rightarrow> val \<Rightarrow> string \<Rightarrow> val \<Rightarrow> error + heap" where
  "setProp h cur key v =
     (case cur of
        Ref a \<Rightarrow> (case cellAt h a of
                    Some (Obj kvs) \<Rightarrow> Inr (h[a := Obj (AList.update key v kvs)])
                  | Some (Arr xs) \<Rightarrow> Inl Unmodelled
                  | None \<Rightarrow> Inl Unmodelled)
      | _ \<Rightarrow> Inl TypeError)"

fun descend :: "heap \<Rightarrow> val \<Rightarrow> string list \<Rightarrow> error + (heap \<times> val)" where
  \<comment> \<open>the \<^verbatim>\<open>for\<close> loop of \<^verbatim>\<open>setPathValue\<close> over all keys but the last\<close>
  "descend h cur [] = Inr (h, cur)"
| "descend h cur (key # keys) =
     (if cur = Null \<or> cur = Undefined then Inl TypeError
      else if getProp h cur key = Undefined then
        (case setProp (h @ [Obj []]) cur key (Ref (length h)) of
           Inl e \<Rightarrow> Inl e
         | Inr h' \<Rightarrow> descend h' (getProp h' cur key) keys)
      else descend h (getProp h cur key) keys)"

definition setPathValue :: "heap \<Rightarrow> val \<Rightarrow> string \<Rightarrow> val \<Rightarrow> error + (heap \<times> val)" where
  \<comment> \<open>returns the store and \<^verbatim>\<open>previous\<close>; \<^verbatim>\<open>next\<close> is the value passed in\<close>
  "setPathValue h obj pth v =
     (let keys = splitPath pth in
      case descend h obj (butlast keys) of
        Inl e \<Rightarrow> Inl e
      | Inr (h1, cur) \<Rightarrow>
          (if cur = Null \<or> cur = Undefined then Inl TypeError
           else (case setProp h1 cur (last keys) v of
                   Inl e \<Rightarrow> Inl e
                 | Inr h2 \<Rightarrow> Inr (h2, getProp h1 cur (last keys)))))"

section \<open>Cloning the input\<close>

text \<open>
  \<^verbatim>\<open>JSON.stringify\<close> reads the caller's object graph and yields a document; it raises a
  TypeError on a circular structure. A graph without a cycle nests at most as deep as
  the store has cells, so the traversal is given that much fuel and running out of it
  is the circular case. A property whose value is \<^verbatim>\<open>undefined\<close> is dropped, an
  \<^verbatim>\<open>undefined\<close> array element becomes \<^verbatim>\<open>null\<close>, and \<^verbatim>\<open>JSON.stringify(undefined)\<close> is
  \<^verbatim>\<open>undefined\<close>, which \<^verbatim>\<open>JSON.parse\<close> rejects with a SyntaxError.
  \<^verbatim>\<open>JSON.parse\<close> allocates a fresh cell for every object and array of the document.
\<close>

datatype 'a walk = Circular | Omitted | Doc 'a

fun collectDocs :: "json walk list \<Rightarrow> json list option" where
  "collectDocs [] = Some []"
| "collectDocs (Circular # ws) = None"
| "collectDocs (Omitted # ws) = map_option ((#) JNull) (collectDocs ws)"
| "collectDocs (Doc j # ws) = map_option ((#) j) (collectDocs ws)"

fun collectFields :: "(string \<times> json walk) list \<Rightarrow> (string \<times> json) list option" where
  "collectFields [] = Some []"
| "collectFields ((k, Circular) # ws) = None"
| "collectFields ((k, Omitted) # ws) = collectFields ws"
| "collectFields ((k, Doc j) # ws) = map_option ((#) (k, j)) (collectFields ws)"

fun stringify :: "nat \<Rightarrow> heap \<Rightarrow> val \<Rightarrow> json walk" where
  "stringify 0 h v = Circular"
| "stringify (Suc n) h Undefined = Omitted"
| "stringify (Suc n) h Null = Doc JNull"
| "stringify (Suc n) h (Bool b) = Doc (JBool b)"
| "stringify (Suc n) h (Num x) = Doc (JNum x)"
| "stringify (Suc n) h (Str s) = Doc (JStr s)"
| "stringify (Suc n) h (Ref a) =
     (case cellAt h a of
        None \<Rightarrow> Circular
      | Some (Arr xs) \<Rightarrow>
          (case collectDocs (map (stringify n h) xs) of
             None \<Rightarrow> Circular | Some js \<Rightarrow> Doc (JArr js))
      | Some (Obj kvs) \<Rightarrow>
          (case collectFields (map (\<lambda>kv. (fst kv, stringify n h (snd kv))) kvs) of
             None \<Rightarrow> Circular | Some fs \<Rightarrow> Doc (JObj fs)))"

fun parse :: "heap \<Rightarrow> json \<Rightarrow> heap \<times> val"
  and parseList :: "heap \<Rightarrow> json list \<Rightarrow> heap \<times> val list"
  and parseFields :: "heap \<Rightarrow> (string \<times> json) list \<Rightarrow> heap \<times> (string \<times> val) list" where
  "parse h JNull = (h, Null)"
| "parse h (JBool b) = (h, Bool b)"
| "parse h (JNum x) = (h, Num x)"
| "parse h (JStr s) = (h, Str s)"
| "parse h (JArr js) = (case parseList h js of (h', vs) \<Rightarrow> (h' @ [Arr vs], Ref (length h')))"
| "parse h (JObj fs) = (case parseFields h fs of (h', kvs) \<Rightarrow> (h' @ [Obj kvs], Ref (length h')))"
| "parseList h [] = (h, [])"
| "parseList h (j # js) =
     (case parse h j of (h1, v) \<Rightarrow>
        (case parseList h1 js of (h2, vs) \<Rightarrow> (h2, v # vs)))"
| "parseFields h [] = (h, [])"
| "parseFields h (kj # fs) =
     (case parse h (snd kj) of (h1, v) \<Rightarrow>
        (case parseFields h1 fs of (h2, kvs) \<Rightarrow> (h2, (fst kj, v) # kvs)))"

definition cloneInput :: "heap \<Rightarrow> val \<Rightarrow> error + (heap \<times> val)" where
  "cloneInput h v =
     (case stringify (Suc (length h)) h v of
        Circular \<Rightarrow> Inl TypeError
      | Omitted \<Rightarrow> Inl SyntaxError
      | Doc j \<Rightarrow> Inr (parse h j))"

section \<open>The action interpreter\<close>

type_synonym writes = "(string \<times> (string \<times> string)) list"
  \<comment> \<open>\<^verbatim>\<open>priorWrites\<close>: path to (actionId, ruleId)\<close>

record ApplyResult =
  ar_trace :: ActionTrace
  ar_diffs :: "StateDiff list"
  ar_log :: "NormalizedActionLog option"
  ar_warning :: "string option"

definition markConflict :: "writes \<Rightarrow> string \<Rightarrow> (string \<times> string) option" where
  "markConflict priorWrites pth = map_of priorWrites pth"

definition recordWrite :: "writes \<Rightarrow> string \<Rightarrow> string \<Rightarrow> string \<Rightarrow> writes" where
  "recordWrite priorWrites pth actionId ruleId = AList.update pth (actionId, ruleId) priorWrites"

definition conflictWarning :: "string \<Rightarrow> (string \<times> string) \<Rightarrow> string \<Rightarrow> string \<Rightarrow> string" where
  "conflictWarning pth conflict ruleId actionId =
     ''Conflict on '' @ pth @ '': previously written by '' @ snd conflict @ '' (''
       @ fst conflict @ ''), now by '' @ ruleId @ '' ('' @ actionId @ '').''"

definition writeTrace ::
  "Action \<Rightarrow> bool \<Rightarrow> string \<Rightarrow> val \<Rightarrow> val \<Rightarrow> string \<Rightarrow> string \<Rightarrow> (string \<times> string) option
     \<Rightarrow> ActionTrace" where
  "writeTrace action enableActions pth beforeValue afterValue actionId ruleId conflict =
     \<lparr> at_action = action, at_applied = enableActions, at_path = Some pth,
       at_beforeValue = Some beforeValue, at_afterValue = Some afterValue,
       at_actionId = actionId, at_ruleId = ruleId, at_conflict = Some (conflict \<noteq> None) \<rparr>"

definition writeLog ::
  "Action \<Rightarrow> bool \<Rightarrow> string \<Rightarrow> val \<Rightarrow> val \<Rightarrow> string \<Rightarrow> string \<Rightarrow> NormalizedActionLog option" where
  "writeLog action enableActions pth beforeValue afterValue actionId ruleId =
     (if enableActions
      then Some \<lparr> log_actionId = actionId, log_ruleId = ruleId, log_kind = actionKind action,
                  log_path = Some pth, log_before = Some beforeValue,
                  log_after = Some afterValue,
                  log_payload = None \<rparr>
      else None)"

definition spreadEntries :: "heap \<Rightarrow> val \<Rightarrow> (string \<times> val) list" where
  \<comment> \<open>the own properties copied by \<^verbatim>\<open>{...(typeof v === 'object' && v !== null ? v : {})}\<close>\<close>
  "spreadEntries h v =
     (case v of
        Ref a \<Rightarrow> (case cellAt h a of
                    Some (Obj kvs) \<Rightarrow> kvs
                  | Some (Arr xs) \<Rightarrow> zip (map showNat [0..<length xs]) xs
                  | None \<Rightarrow> [])
      | _ \<Rightarrow> [])"

fun applyAction ::
  "Action \<Rightarrow> heap \<Rightarrow> val \<Rightarrow> string \<Rightarrow> string \<Rightarrow> bool \<Rightarrow> writes
     \<Rightarrow> error + (heap \<times> writes \<times> ApplyResult)" where
  "applyAction (SetA tgt v) h data ruleId actionId enableActions priorWrites =
     (let targetValue = evaluateOperand h data v in
      case (if enableActions then setPathValue h data tgt targetValue
            else Inr (h, getPathValue h data tgt)) of
        Inl e \<Rightarrow> Inl e
      | Inr (h', previous) \<Rightarrow>
          (let diffs = (if enableActions \<and> previous \<noteq> targetValue
                        then [\<lparr> sd_path = tgt, sd_before = previous, sd_after = targetValue \<rparr>]
                        else []);
               conflict = markConflict priorWrites tgt;
               priorWrites' = (if enableActions then recordWrite priorWrites tgt actionId ruleId
                               else priorWrites)
           in Inr (h', priorWrites',
                \<lparr> ar_trace = writeTrace (SetA tgt v) enableActions tgt previous
                     (if enableActions then targetValue else previous) actionId ruleId conflict,
                  ar_diffs = diffs,
                  ar_log = writeLog (SetA tgt v) enableActions tgt previous targetValue
                     actionId ruleId,
                  ar_warning = map_option (\<lambda>c. conflictWarning tgt c ruleId actionId) conflict \<rparr>)))"
| "applyAction (IncrementA tgt d) h data ruleId actionId enableActions priorWrites =
     (let current = getPathValue h data tgt;
          next = (if isNumber current then Num (numOf current + d) else Num d) in
      case (if enableActions then setPathValue h data tgt next else Inr (h, Undefined)) of
        Inl e \<Rightarrow> Inl e
      | Inr (h', previous) \<Rightarrow>
          (let diffs = (if enableActions
                        then [\<lparr> sd_path = tgt, sd_before = previous, sd_after = next \<rparr>]
                        else []);
               conflict = markConflict priorWrites tgt;
               priorWrites' = (if enableActions then recordWrite priorWrites tgt actionId ruleId
                               else priorWrites)
           in Inr (h', priorWrites',
                \<lparr> ar_trace = writeTrace (IncrementA tgt d) enableActions tgt current
                     (if enableActions then next else current) actionId ruleId conflict,
                  ar_diffs = diffs,
                  ar_log = writeLog (IncrementA tgt d) enableActions tgt current next
                     actionId ruleId,
                  ar_warning = map_option (\<lambda>c. conflictWarning tgt c ruleId actionId) conflict \<rparr>)))"
| "applyAction (AppendA tgt v) h data ruleId actionId enableActions priorWrites =
     (let current = getPathValue h data tgt;
          valueToAppend = evaluateOperand h data v;
          h1 = h @ [Arr (case arrayOf h current of
                           Some xs \<Rightarrow> xs @ [valueToAppend] | None \<Rightarrow> [valueToAppend])];
          nextArray = Ref (length h);
          h2 = (if arrayOf h current = None \<and> current = Undefined then h1 @ [Arr []] else h1);
          beforeValue = (if arrayOf h current = None \<and> current = Undefined
                         then Ref (length h1) else current) in
      case (if enableActions then setPathValue h2 data tgt nextArray else Inr (h2, Undefined)) of
        Inl e \<Rightarrow> Inl e
      | Inr (h', previous) \<Rightarrow>
          (let diffs = (if enableActions
                        then [\<lparr> sd_path = tgt, sd_before = beforeValue, sd_after = nextArray \<rparr>]
                        else []);
               conflict = markConflict priorWrites tgt;
               priorWrites' = (if enableActions then recordWrite priorWrites tgt actionId ruleId
                               else priorWrites)
           in Inr (h', priorWrites',
                \<lparr> ar_trace = writeTrace (AppendA tgt v) enableActions tgt beforeValue
                     (if enableActions then nextArray else beforeValue) actionId ruleId conflict,
                  ar_diffs = diffs,
                  ar_log = writeLog (AppendA tgt v) enableActions tgt beforeValue nextArray
                     actionId ruleId,
                  ar_warning = map_option (\<lambda>c. conflictWarning tgt c ruleId actionId) conflict \<rparr>)))"
| "applyAction (EmitA ev pl) h data ruleId actionId enableActions priorWrites =
     Inr (h, priorWrites,
       \<lparr> ar_trace = \<lparr> at_action = EmitA ev pl, at_applied = enableActions, at_path = None,
                      at_beforeValue = None, at_afterValue = None,
                      at_actionId = actionId, at_ruleId = ruleId, at_conflict = None \<rparr>,
         ar_diffs = [],
         ar_log = (if enableActions
                   then Some \<lparr> log_actionId = actionId, log_ruleId = ruleId,
                               log_kind = actionKind (EmitA ev pl), log_path = Some ev,
                               log_before = None, log_after = None,
                               log_payload = Some (case pl of None \<Rightarrow> JObj [] | Some j \<Rightarrow> j) \<rparr>
                   else None),
         ar_warning = None \<rparr>)"
| "applyAction (RouteA q rsn) h data ruleId actionId enableActions priorWrites =
     (let beforeRoute = getPathValue h data ''route'';
          h1 = h @ [Obj (AList.update ''reason'' (case rsn of None \<Rightarrow> Undefined | Some r \<Rightarrow> Str r)
                          (AList.update ''toQueue'' (Str q) (spreadEntries h beforeRoute)))];
          nextRoute = Ref (length h) in
      case (if enableActions then setPathValue h1 data ''route'' nextRoute
            else Inr (h1, Undefined)) of
        Inl e \<Rightarrow> Inl e
      | Inr (h', previous) \<Rightarrow>
          (let diffs = (if enableActions
                        then [\<lparr> sd_path = ''route'', sd_before = beforeRoute, sd_after = nextRoute \<rparr>]
                        else []);
               conflict = markConflict priorWrites ''route'';
               priorWrites' = (if enableActions
                               then recordWrite priorWrites ''route'' actionId ruleId
                               else priorWrites)
           in Inr (h', priorWrites',
                \<lparr> ar_trace = writeTrace (RouteA q rsn) enableActions ''route'' beforeRoute
                     (if enableActions then nextRoute else beforeRoute) actionId ruleId conflict,
                  ar_diffs = diffs,
                  ar_log = writeLog (RouteA q rsn) enableActions ''route'' beforeRoute nextRoute
                     actionId ruleId,
                  ar_warning =
                    map_option (\<lambda>c. conflictWarning ''route'' c ruleId actionId) conflict \<rparr>)))"

section \<open>Constraints\<close>

definition severityOf :: "Constraint \<Rightarrow> string" where
  \<comment> \<open>\<^verbatim>\<open>constraint.severity ?? 'error'\<close>\<close>
  "severityOf c = (case constraint_severity c of None \<Rightarrow> ''error'' | Some s \<Rightarrow> s)"

definition constraintStep ::
  "host \<Rightarrow> heap \<Rightarrow> val \<Rightarrow> ConstraintReport \<Rightarrow> Constraint \<Rightarrow> ConstraintReport" where
  \<comment> \<open>the body of \<^verbatim>\<open>constraints.forEach\<close>; the two flags are set after the loop\<close>
  "constraintStep H h data rep c =
     (let tr = evaluateCondition H h (constraint_assert c) data;
          entry = \<lparr> cr_constraint = c, cr_passed = result tr, cr_trace = tr \<rparr>
      in if result tr then rep\<lparr> passed := passed rep @ [entry] \<rparr>
         else if severityOf c = ''error''
         then rep\<lparr> failed := failed rep @ [entry], errorCount := errorCount rep + 1 \<rparr>
         else rep\<lparr> failed := failed rep @ [entry], warningCount := warningCount rep + 1 \<rparr>)"

definition emptyReport :: ConstraintReport where
  "emptyReport = \<lparr> passed = [], failed = [], hasFailures = False, hasErrors = False,
                    errorCount = 0, warningCount = 0 \<rparr>"

definition evaluateConstraints ::
  "host \<Rightarrow> heap \<Rightarrow> Constraint list option \<Rightarrow> val \<Rightarrow> ConstraintReport" where
  "evaluateConstraints H h cs data =
     (case cs of
        None \<Rightarrow> emptyReport
      | Some cl \<Rightarrow>
          (let rep = foldl (constraintStep H h data) emptyReport cl
           in rep\<lparr> hasFailures := failed rep \<noteq> [], hasErrors := errorCount rep > 0 \<rparr>))"

section \<open>The rule scheduler\<close>

text \<open>
  \<^verbatim>\<open>[...rules].sort(cmp)\<close> is a stable sort; for a comparator that is a consistent total
  preorder its result is the one of a stable insertion sort.
\<close>

definition priorityOf :: "Rule \<Rightarrow> rat" where
  \<comment> \<open>\<^verbatim>\<open>rule.priority ?? 0\<close>\<close>
  "priorityOf r = (case rule_priority r of None \<Rightarrow> 0 | Some p \<Rightarrow> p)"

definition ruleCompare :: "host \<Rightarrow> Rule \<Rightarrow> Rule \<Rightarrow> rat" where
  "ruleCompare H a b =
     (if priorityOf a \<noteq> priorityOf b then priorityOf b - priorityOf a
      else of_int (localeCompare H (rule_id a) (rule_id b)))"

fun insertRule :: "host \<Rightarrow> Rule \<Rightarrow> Rule list \<Rightarrow> Rule list" where
  "insertRule H x [] = [x]"
| "insertRule H x (y # ys) =
     (if ruleCompare H x y \<le> 0 then x # y # ys else y # insertRule H x ys)"

definition sortRules :: "host \<Rightarrow> Rule list \<Rightarrow> Rule list" where
  "sortRules H rs = foldr (insertRule H) rs []"

definition normalizeMode :: "string option \<Rightarrow> string" where
  "normalizeMode m =
     (if m = Some ''first'' \<or> m = Some ''firstMatch'' then ''firstMatch'' else ''allMatches'')"

text \<open>
  The variables that \<^verbatim>\<open>runProgram\<close> declares and \<^verbatim>\<open>executePass\<close> closes over: the
  constants of a run, and the ones it assigns (with the store).
\<close>

record RunConfig =
  cfg_state :: val
  cfg_maxRuleFirings :: rat
  cfg_enableActions :: bool
  cfg_mode :: string
  cfg_loopUntilSettled :: bool

record RunState =
  x_heap :: heap
  x_actions :: "NormalizedActionLog list"
  x_traces :: "RuleTrace list"
  x_priorWrites :: writes
  x_conflictWarnings :: "string list"
  x_firings :: nat
  x_hitRuleLimit :: bool

record PassResult =
  fired :: bool
  mutated :: bool
  stopEarly :: bool

definition optList :: "'a option \<Rightarrow> 'a list" where
  \<comment> \<open>what \<^verbatim>\<open>if (x) xs.push(x)\<close> appends\<close>
  "optList x = (case x of None \<Rightarrow> [] | Some y \<Rightarrow> [y])"

type_synonym ruleLocals = "ActionTrace list \<times> StateDiff list \<times> string list"
  \<comment> \<open>\<^verbatim>\<open>actionTraces\<close>, \<^verbatim>\<open>stateDiffs\<close>, \<^verbatim>\<open>warnings\<close>\<close>

fun applyActions ::
  "val \<Rightarrow> bool \<Rightarrow> string \<Rightarrow> Action list \<Rightarrow> RunState \<Rightarrow> ruleLocals
     \<Rightarrow> error + (RunState \<times> ruleLocals)" where
  "applyActions data enableActions ruleId [] s acc = Inr (s, acc)"
| "applyActions data enableActions ruleId (a # as) s acc =
     (let actionId = ''act-'' @ showNat (length (x_actions s) + length (fst acc) + 1) in
      case applyAction a (x_heap s) data ruleId actionId enableActions (x_priorWrites s) of
        Inl e \<Rightarrow> Inl e
      | Inr (h', priorWrites', r) \<Rightarrow>
          applyActions data enableActions ruleId as
            (s\<lparr> x_heap := h', x_priorWrites := priorWrites',
                x_conflictWarnings := x_conflictWarnings s @ optList (ar_warning r),
                x_actions := x_actions s @ optList (ar_log r) \<rparr>)
            (fst acc @ [ar_trace r], fst (snd acc) @ ar_diffs r,
             snd (snd acc) @ optList (ar_warning r)))"

definition ruleActionsOf :: "Rule \<Rightarrow> bool \<Rightarrow> Action list" where
  \<comment> \<open>\<^verbatim>\<open>matched ? rule.then ?? rule.actions ?? [] : rule.else ?? []\<close>\<close>
  "ruleActionsOf rule matched =
     (if matched
      then (case rule_then rule of
              Some as \<Rightarrow> as
            | None \<Rightarrow> (case rule_actions rule of Some as \<Rightarrow> as | None \<Rightarrow> []))
      else (case rule_else rule of Some as \<Rightarrow> as | None \<Rightarrow> []))"

definition ruleModeOf :: "Rule \<Rightarrow> string \<Rightarrow> string" where
  \<comment> \<open>\<^verbatim>\<open>rule.mode ? normalizeMode(rule.mode) : mode\<close>\<close>
  "ruleModeOf rule m =
     (case rule_mode rule of
        None \<Rightarrow> m
      | Some rm \<Rightarrow> (if rm = [] then m else normalizeMode (Some rm)))"

definition executeRule ::
  "host \<Rightarrow> RunConfig \<Rightarrow> Rule \<Rightarrow> RunState \<Rightarrow> PassResult
     \<Rightarrow> error + (RunState \<times> PassResult \<times> bool)" where
  \<comment> \<open>one iteration of the loop over \<^verbatim>\<open>sortedRules\<close>; the flag says that it ended in \<^verbatim>\<open>break\<close>\<close>
  "executeRule H c rule s pr =
     (let conditionTrace = evaluateCondition H (x_heap s) (rule_when rule) (cfg_state c);
          matched = result conditionTrace;
          s1 = (if matched then s\<lparr> x_firings := x_firings s + 1 \<rparr> else s);
          pr1 = (if matched then pr\<lparr> fired := True \<rparr> else pr) in
      case applyActions (cfg_state c) (cfg_enableActions c) (rule_id rule)
             (ruleActionsOf rule matched) s1 ([], [], []) of
        Inl e \<Rightarrow> Inl e
      | Inr (s2, actionTraces, stateDiffs, warnings) \<Rightarrow>
          (let pr2 = (if cfg_enableActions c \<and> stateDiffs \<noteq> [] then pr1\<lparr> mutated := True \<rparr>
                      else pr1);
               s3 = s2\<lparr> x_traces := x_traces s2 @
                      [\<lparr> rt_ruleId = rule_id rule, rt_ruleName = rule_name rule,
                         rt_priority = rule_priority rule, rt_evaluatedWhen = matched,
                         rt_why = conditionTrace, rt_actionsApplied = actionTraces,
                         rt_stateDiff = stateDiffs,
                         rt_stopProcessing = (if matched then rule_stopProcessing rule else None),
                         rt_warnings = (if warnings \<noteq> [] then Some warnings else None) \<rparr>] \<rparr>
           in if of_nat (x_firings s3) \<ge> cfg_maxRuleFirings c
              then Inr (s3\<lparr> x_hitRuleLimit := True \<rparr>, pr2\<lparr> stopEarly := True \<rparr>, True)
              else if matched \<and> (ruleModeOf rule (cfg_mode c) = ''firstMatch''
                                   \<or> rule_stopProcessing rule = Some True)
              then Inr (s3, pr2\<lparr> stopEarly := True \<rparr>, True)
              else Inr (s3, pr2, False)))"

fun ruleLoop ::
  "host \<Rightarrow> RunConfig \<Rightarrow> Rule list \<Rightarrow> RunState \<Rightarrow> PassResult \<Rightarrow> error + (RunState \<times> PassResult)" where
  "ruleLoop H c [] s pr = Inr (s, pr)"
| "ruleLoop H c (rule # rest) s pr =
     (case executeRule H c rule s pr of
        Inl e \<Rightarrow> Inl e
      | Inr (s', pr', brk) \<Rightarrow> (if brk then Inr (s', pr') else ruleLoop H c rest s' pr'))"

definition executePass ::
  "host \<Rightarrow> RunConfig \<Rightarrow> Rule list \<Rightarrow> RunState \<Rightarrow> error + (RunState \<times> PassResult)" where
  "executePass H c sortedRules s =
     ruleLoop H c sortedRules s \<lparr> fired = False, mutated = False, stopEarly = False \<rparr>"

text \<open>
  The \<^verbatim>\<open>while\<close> loop of \<^verbatim>\<open>runProgram\<close>. Nothing in the source bounds the number of its
  iterations, so it is a partial function: \<open>None\<close> is a run that never leaves the loop.
\<close>

partial_function (option) passLoop ::
  "host \<Rightarrow> RunConfig \<Rightarrow> Rule list \<Rightarrow> RunState \<times> PassResult \<Rightarrow> (error + RunState) option" where
  "passLoop H c sortedRules sp =
     (if cfg_loopUntilSettled c \<and> mutated (snd sp) \<and> \<not> stopEarly (snd sp)
         \<and> \<not> x_hitRuleLimit (fst sp)
      then (case executePass H c sortedRules (fst sp) of
              Inl e \<Rightarrow> Some (Inl e)
            | Inr sp' \<Rightarrow> passLoop H c sortedRules sp')
      else Some (Inr (fst sp)))"

declare passLoop.simps [code]

section \<open>Running a program\<close>

definition optionOf :: "ExecutionOptions option \<Rightarrow> (ExecutionOptions \<Rightarrow> 'a option) \<Rightarrow> 'a option" where
  \<comment> \<open>\<^verbatim>\<open>options?.field\<close>\<close>
  "optionOf options field = (case options of None \<Rightarrow> None | Some opts \<Rightarrow> field opts)"

definition runConfig :: "Program \<Rightarrow> val \<Rightarrow> ExecutionOptions option \<Rightarrow> RunConfig" where
  "runConfig program state options =
     \<lparr> cfg_state = state,
       cfg_maxRuleFirings = (case optionOf options opt_maxRuleFirings of
                               None \<Rightarrow> 1000 | Some m \<Rightarrow> m),
       cfg_enableActions = (case optionOf options opt_enableActions of
                              None \<Rightarrow> False | Some b \<Rightarrow> b),
       cfg_mode = (case optionOf options opt_mode of
                     None \<Rightarrow> normalizeMode (config_ruleEvaluation program) | Some m \<Rightarrow> m),
       cfg_loopUntilSettled = (case optionOf options opt_loopUntilSettled of
                                 None \<Rightarrow> False | Some b \<Rightarrow> b) \<rparr>"

definition initialState :: "heap \<Rightarrow> RunState" where
  "initialState h =
     \<lparr> x_heap = h, x_actions = [], x_traces = [], x_priorWrites = [],
       x_conflictWarnings = [], x_firings = 0, x_hitRuleLimit = False \<rparr>"

definition finish :: "host \<Rightarrow> Program \<Rightarrow> val \<Rightarrow> RunState \<Rightarrow> ExecutionResult" where
  \<comment> \<open>the constraint report and the returned object, before the test report is attached\<close>
  "finish H program state s =
     (let report = evaluateConstraints H (x_heap s) (constraints program) state in
      \<lparr> resultState = state,
        actions = x_actions s,
        trace = x_traces s,
        constraintReport = report,
        testReport = None,
        success = (\<not> (hasErrors report \<or> x_hitRuleLimit s)),
        conflictWarnings = (if x_conflictWarnings s \<noteq> [] then Some (x_conflictWarnings s) else None),
        ruleFirings = x_firings s,
        hitRuleLimit = x_hitRuleLimit s \<rparr>)"

definition runFrom ::
  "host \<Rightarrow> Program \<Rightarrow> heap \<Rightarrow> val \<Rightarrow> ExecutionOptions option
     \<Rightarrow> (error + (heap \<times> ExecutionResult)) option" where
  \<comment> \<open>\<^verbatim>\<open>runProgram\<close> from the cloned \<^verbatim>\<open>state\<close> on, without the test report\<close>
  "runFrom H program h state options =
     (let c = runConfig program state options;
          sortedRules = sortRules H (rules program) in
      case executePass H c sortedRules (initialState h) of
        Inl e \<Rightarrow> Some (Inl e)
      | Inr sp \<Rightarrow>
          (case passLoop H c sortedRules sp of
             None \<Rightarrow> None
           | Some (Inl e) \<Rightarrow> Some (Inl e)
           | Some (Inr s) \<Rightarrow> Some (Inr (x_heap s, finish H program state s))))"

fun expectationMatches :: "heap \<Rightarrow> val \<Rightarrow> json \<Rightarrow> bool"
  and matchElements :: "heap \<Rightarrow> val \<Rightarrow> nat \<Rightarrow> json list \<Rightarrow> bool"
  and matchFields :: "heap \<Rightarrow> val \<Rightarrow> (string \<times> json) list \<Rightarrow> bool" where
  "expectationMatches h actual JNull = (actual = Null)"
| "expectationMatches h actual (JBool b) = (actual = Bool b)"
| "expectationMatches h actual (JNum x) = (actual = Num x)"
| "expectationMatches h actual (JStr s) = (actual = Str s)"
| "expectationMatches h actual (JArr es) =
     (case actual of Ref a \<Rightarrow> matchElements h actual 0 es | _ \<Rightarrow> False)"
| "expectationMatches h actual (JObj fs) =
     (case actual of Ref a \<Rightarrow> matchFields h actual fs | _ \<Rightarrow> False)"
| "matchElements h actual i [] = True"
| "matchElements h actual i (e # es) =
     (expectationMatches h (getProp h actual (showNat i)) e \<and> matchElements h actual (Suc i) es)"
| "matchFields h actual [] = True"
| "matchFields h actual (kv # fs) =
     (expectationMatches h (getProp h actual (fst kv)) (snd kv) \<and> matchFields h actual fs)"

text \<open>
  \<^verbatim>\<open>runExample\<close> calls \<^verbatim>\<open>runProgram(program, example.input, { enableActions: true })\<close>.
  The example's input is a document of the program, so its clone is the parse of that
  document, and the call attaches no test report because \<^verbatim>\<open>evaluateExamples\<close> is unset.
\<close>

definition exampleOptions :: ExecutionOptions where
  "exampleOptions =
     \<lparr> opt_mode = None, opt_maxRuleFirings = None, opt_enableActions = Some True,
       opt_loopUntilSettled = None, opt_evaluateExamples = None \<rparr>"

definition runExample ::
  "host \<Rightarrow> Program \<Rightarrow> heap \<Rightarrow> Example \<Rightarrow> (error + (heap \<times> ExampleResult)) option" where
  "runExample H program h example =
     (case parse h (example_input example) of (h1, state) \<Rightarrow>
        (case runFrom H program h1 state (Some exampleOptions) of
           None \<Rightarrow> None
         | Some (Inl e) \<Rightarrow> Some (Inl e)
         | Some (Inr (h2, r)) \<Rightarrow>
             (let constraintFailures =
                    filter (\<lambda>cr. severityOf (cr_constraint cr) = ''error'')
                      (failed (constraintReport r));
                  ok = (expectationMatches h2 (resultState r) (example_expected example)
                        \<and> constraintFailures = [])
              in Some (Inr (h2,
                   \<lparr> er_example = example, er_passed = ok, er_actualOutput = resultState r,
                     er_constraints = constraintReport r, er_trace = trace r \<rparr>)))))"

fun mapExamples ::
  "host \<Rightarrow> Program \<Rightarrow> heap \<Rightarrow> Example list \<Rightarrow> (error + (heap \<times> ExampleResult list)) option" where
  \<comment> \<open>\<^verbatim>\<open>examples.map((example) => runExample(program, example))\<close>\<close>
  "mapExamples H program h [] = Some (Inr (h, []))"
| "mapExamples H program h (ex # exs) =
     (case runExample H program h ex of
        None \<Rightarrow> None
      | Some (Inl e) \<Rightarrow> Some (Inl e)
      | Some (Inr (h1, r)) \<Rightarrow>
          (case mapExamples H program h1 exs of
             None \<Rightarrow> None
           | Some (Inl e) \<Rightarrow> Some (Inl e)
           | Some (Inr (h2, rs)) \<Rightarrow> Some (Inr (h2, r # rs))))"

definition runProgram ::
  "host \<Rightarrow> Program \<Rightarrow> heap \<Rightarrow> val \<Rightarrow> ExecutionOptions option
     \<Rightarrow> (error + (heap \<times> ExecutionResult)) option" where
  "runProgram H program h input options =
     (case cloneInput h input of
        Inl e \<Rightarrow> Some (Inl e)
      | Inr (h1, state) \<Rightarrow>
          (case runFrom H program h1 state options of
             None \<Rightarrow> None
           | Some (Inl e) \<Rightarrow> Some (Inl e)
           | Some (Inr (h2, r)) \<Rightarrow>
               (if optionOf options opt_evaluateExamples = Some True
                then (case examples program of
                        None \<Rightarrow> Some (Inr (h2, r))
                      | Some exs \<Rightarrow>
                          (case mapExamples H program h2 exs of
                             None \<Rightarrow> None
                           | Some (Inl e) \<Rightarrow> Some (Inl e)
                           | Some (Inr (h3, reports)) \<Rightarrow>
                               Some (Inr (h3, r\<lparr> testReport := Some reports \<rparr>))))
                else Some (Inr (h2, r)))))"

definition runExamples ::
  "host \<Rightarrow> Program \<Rightarrow> heap \<Rightarrow> (error + (heap \<times> ExampleResult list)) option" where
  "runExamples H program h =
     (case examples program of
        None \<Rightarrow> Some (Inr (h, []))
      | Some exs \<Rightarrow> (if exs = [] then Some (Inr (h, [])) else mapExamples H program h exs))"

section \<open>Rule coverage\<close>

text \<open>
  \<^verbatim>\<open>assessRuleCoverage\<close> of \<^verbatim>\<open>src/coverage.ts\<close> calls \<^verbatim>\<open>runProgram(program, example.input)\<close>
  without options and then reads \<^verbatim>\<open>result.firedRules\<close>, and on each element \<^verbatim>\<open>matched\<close> and
  \<^verbatim>\<open>rule.id\<close>. The object that \<^verbatim>\<open>runProgram\<close> returns has the properties \<^verbatim>\<open>resultState\<close>,
  \<^verbatim>\<open>actions\<close>, \<^verbatim>\<open>trace\<close>, \<^verbatim>\<open>constraintReport\<close>, \<^verbatim>\<open>testReport\<close>, \<^verbatim>\<open>success\<close>,
  \<^verbatim>\<open>conflictWarnings\<close>, \<^verbatim>\<open>ruleFirings\<close> and \<^verbatim>\<open>hitRuleLimit\<close>; a read of any other property
  yields \<^verbatim>\<open>undefined\<close>, and calling \<^verbatim>\<open>forEach\<close> on \<^verbatim>\<open>undefined\<close> raises a TypeError.
\<close>

record RuleCoverage =
  ruleId :: string
  matchedInExamples :: nat
  totalExamples :: nat
  coveragePercent :: int

definition firedRules :: "ExecutionResult \<Rightarrow> RuleTrace list option" where
  \<comment> \<open>\<^verbatim>\<open>result.firedRules\<close>: not a property of the returned object\<close>
  "firedRules r = None"

definition traceMatched :: "RuleTrace \<Rightarrow> bool" where
  \<comment> \<open>\<^verbatim>\<open>trace.matched\<close>: not a property of a rule trace, so \<^verbatim>\<open>undefined\<close>, which is falsy\<close>
  "traceMatched t = False"

definition countOf :: "(string \<times> nat) list \<Rightarrow> string \<Rightarrow> nat" where
  \<comment> \<open>\<^verbatim>\<open>counts[id] ?? 0\<close>\<close>
  "countOf counts i = (case map_of counts i of None \<Rightarrow> 0 | Some n \<Rightarrow> n)"

fun countExamples ::
  "host \<Rightarrow> Program \<Rightarrow> heap \<Rightarrow> Example list \<Rightarrow> (string \<times> nat) list
     \<Rightarrow> (error + (heap \<times> (string \<times> nat) list)) option" where
  "countExamples H program h [] counts = Some (Inr (h, counts))"
| "countExamples H program h (ex # exs) counts =
     (case parse h (example_input ex) of (h1, state) \<Rightarrow>
        (case runFrom H program h1 state None of
           None \<Rightarrow> None
         | Some (Inl e) \<Rightarrow> Some (Inl e)
         | Some (Inr (h2, r)) \<Rightarrow>
             (case firedRules r of
                None \<Rightarrow> Some (Inl TypeError)
              | Some traces \<Rightarrow>
                  countExamples H program h2 exs
                    (foldl (\<lambda>cs t. if traceMatched t
                                     then AList.update (rt_ruleId t) (countOf cs (rt_ruleId t) + 1) cs
                                     else cs) counts traces))))"

definition roundPercent :: "nat \<Rightarrow> nat \<Rightarrow> int" where
  \<comment> \<open>\<^verbatim>\<open>Math.round((count / total) * 100)\<close>, on rationals\<close>
  "roundPercent n m = \<lfloor>(of_nat n / of_nat m) * (100 :: rat) + 1 / 2\<rfloor>"

definition assessRuleCoverage ::
  "host \<Rightarrow> Program \<Rightarrow> heap \<Rightarrow> (error + (heap \<times> RuleCoverage list)) option" where
  "assessRuleCoverage H program h =
     (case examples program of
        None \<Rightarrow> Some (Inr (h, []))
      | Some exs \<Rightarrow>
          (if exs = [] then Some (Inr (h, []))
           else (case countExamples H program h exs
                        (foldl (\<lambda>cs r. AList.update (rule_id r) 0 cs) [] (rules program)) of
                   None \<Rightarrow> None
                 | Some (Inl e) \<Rightarrow> Some (Inl e)
                 | Some (Inr (h', counts)) \<Rightarrow>
                     Some (Inr (h',
                       map (\<lambda>r. \<lparr> ruleId = rule_id r,
                                   matchedInExamples = countOf counts (rule_id r),
                                   totalExamples = length exs,
                                   coveragePercent =
                                     (if length exs = 0 then 0
                                      else roundPercent (countOf counts (rule_id r)) (length exs)) \<rparr>)
                         (rules program))))))"

section \<open>Static conflict detection\<close>







section \<open>Sample inputs\<close>

text \<open>
  A small host on which the definitions can be run: its regular expressions are literal
  patterns, rejected when their parentheses do not balance, and its collation is the
  lexicographic order of the character codes.
\<close>

definition balanced :: "string \<Rightarrow> bool" where
  "balanced p = (count_list p CHR ''('' = count_list p CHR '')'')"

definition sampleHost :: host where
  "sampleHost =
     \<lparr> RegExp = (\<lambda>p ci. if balanced p then Some (\<lambda>s. includesStr s p) else None),
       localeCompare = (\<lambda>a b. if a < b then - 1 else if a = b then 0 else 1),
       numberToString = (\<lambda>x. ''0''),
       objectToString = (\<lambda>h a. ''[object Object]'') \<rparr>"

text \<open>The payload \<^verbatim>\<open>{ order: { total: 120, vip: false, note: "a(b" } }\<close> in the caller's store.\<close>

definition sampleHeap :: heap where
  "sampleHeap =
     [Obj [(''total'', Num 120), (''vip'', Bool False), (''note'', Str ''a(b'')],
      Obj [(''order'', Ref 0)]]"

definition sampleInput :: val where
  "sampleInput = Ref 1"








text \<open>
  Two rules over the sample payload, the second with the higher priority, and one
  constraint of the default severity.
\<close>

definition vipRule :: Rule where
  "vipRule =
     \<lparr> rule_id = ''vip-route'', rule_name = ''Route VIP orders'',
       rule_priority = Some 1, rule_mode = None,
       rule_when = Compare KCompare (Fact ''order.vip'' None) ''eq'' (Value (LBool True) None),
       rule_then = Some [RouteA ''priority'' None],
       rule_else = None, rule_actions = None, rule_stopProcessing = None \<rparr>"

definition discountRule :: Rule where
  "discountRule =
     \<lparr> rule_id = ''discount-high-value'', rule_name = ''Discount high value orders'',
       rule_priority = Some 5, rule_mode = None,
       rule_when = Compare KCompare (Fact ''order.total'' None) ''>'' (Value (LNum 100) None),
       rule_then = Some [SetA ''order.discountPercent'' (Value (LNum 10) None)],
       rule_else = None, rule_actions = None, rule_stopProcessing = None \<rparr>"

definition discountProgram :: Program where
  "discountProgram =
     \<lparr> rules = [vipRule, discountRule],
       constraints = Some [\<lparr> constraint_id = ''max-discount'',
          constraint_assert = Compare KCompare (Fact ''order.discountPercent'' None) ''<='' (Value (LNum 50) None),
          constraint_severity = None \<rparr>],
       examples = None, config_ruleEvaluation = None \<rparr>"

text \<open>Options: actions enabled; actions enabled with a cap of one firing.\<close>

definition liveOptions :: ExecutionOptions where
  "liveOptions = \<lparr> opt_mode = None, opt_maxRuleFirings = None, opt_enableActions = Some True,
       opt_loopUntilSettled = None, opt_evaluateExamples = None \<rparr>"

definition cappedOptions :: ExecutionOptions where
  "cappedOptions = \<lparr> opt_mode = None, opt_maxRuleFirings = Some 1, opt_enableActions = Some True,
       opt_loopUntilSettled = None, opt_evaluateExamples = None \<rparr>"

text \<open>The store after \<^verbatim>\<open>cloneInput\<close> of the sample payload: the clone is \<open>Ref 3\<close>.\<close>

definition sampleClone :: heap where
  "sampleClone = sampleHeap @
     [Obj [(''total'', Num 120), (''vip'', Bool False), (''note'', Str ''a(b'')],
      Obj [(''order'', Ref 2)]]"


section \<open>Notions used to state the properties\<close>

text \<open>
  A call returned; the store and the result it returned.
\<close>

definition returned :: "(error + (heap \<times> ExecutionResult)) option \<Rightarrow> bool" where
  "returned x = (case x of Some (Inr _) \<Rightarrow> True | _ \<Rightarrow> False)"

definition finalHeap :: "(error + (heap \<times> 'a)) option \<Rightarrow> heap option" where
  "finalHeap x = (case x of Some (Inr hr) \<Rightarrow> Some (fst hr) | _ \<Rightarrow> None)"

definition finalResult :: "(error + (heap \<times> 'a)) option \<Rightarrow> 'a option" where
  "finalResult x = (case x of Some (Inr hr) \<Rightarrow> Some (snd hr) | _ \<Rightarrow> None)"

text \<open>
  The cells that a run owns are those from address \<open>n\<close> on, where \<open>n\<close> is the size of the
  caller's store: a value is fresh when it is not a reference below \<open>n\<close>, the owned part
  is closed when its cells hold fresh values only, and a later store frames an earlier
  one when it agrees with it below \<open>n\<close> and is not shorter.
\<close>

definition freshVal :: "nat \<Rightarrow> heap \<Rightarrow> val \<Rightarrow> bool" where
  "freshVal n h v = (case v of Ref a \<Rightarrow> n \<le> a \<and> a < length h | _ \<Rightarrow> True)"

definition cellVals :: "cell \<Rightarrow> val list" where
  "cellVals c = (case c of Obj kvs \<Rightarrow> map snd kvs | Arr xs \<Rightarrow> xs)"

definition owned :: "nat \<Rightarrow> heap \<Rightarrow> bool" where
  "owned n h = (n \<le> length h
     \<and> (\<forall>a. n \<le> a \<and> a < length h \<longrightarrow> (\<forall>v\<in>set (cellVals (h ! a)). freshVal n h v)))"

definition frame :: "nat \<Rightarrow> heap \<Rightarrow> heap \<Rightarrow> bool" where
  "frame n h h' = (take n h' = take n h \<and> length h \<le> length h')"

text \<open>A rule trace of a dry run: no state diff, no warning, no action applied or in conflict.\<close>

definition dryTrace :: "RuleTrace \<Rightarrow> bool" where
  "dryTrace t = (rt_stateDiff t = [] \<and> rt_warnings t = None
     \<and> (\<forall>a\<in>set (rt_actionsApplied t). \<not> at_applied a \<and> at_conflict a \<noteq> Some True))"

definition constraintsOf :: "Program \<Rightarrow> Constraint list" where
  "constraintsOf p = (case constraints p of None \<Rightarrow> [] | Some cs \<Rightarrow> cs)"


text \<open>
  The order that \<^verbatim>\<open>sortRules\<close> is to establish: higher priority first (unset is 0), then
  the rule ids as \<^verbatim>\<open>localeCompare\<close> orders them. The collation of the host is consistent
  when it is total and transitive, as a comparator passed to \<^verbatim>\<open>sort\<close> must be.
\<close>

definition ruleBefore :: "host \<Rightarrow> Rule \<Rightarrow> Rule \<Rightarrow> bool" where
  "ruleBefore H a b =
     (priorityOf a > priorityOf b
      \<or> (priorityOf a = priorityOf b \<and> localeCompare H (rule_id a) (rule_id b) \<le> 0))"

definition consistentCollation :: "host \<Rightarrow> bool" where
  "consistentCollation H =
     ((\<forall>x y. localeCompare H x y \<le> 0 \<or> localeCompare H y x \<le> 0)
      \<and> (\<forall>x y z. localeCompare H x y \<le> 0 \<and> localeCompare H y z \<le> 0
             \<longrightarrow> localeCompare H x z \<le> 0))"

text \<open>
  Every occurrence of \<open>y\<close> in a list comes after an occurrence of \<open>x\<close>; the first \<open>k\<close>
  elements of a list, taken once for each pass and concatenated.
\<close>

fun precedesFrom :: "bool \<Rightarrow> 'a \<Rightarrow> 'a \<Rightarrow> 'a list \<Rightarrow> bool" where
  "precedesFrom seen x y [] = True"
| "precedesFrom seen x y (z # zs) = ((z = y \<longrightarrow> seen) \<and> precedesFrom (seen \<or> z = x) x y zs)"

definition precedes :: "'a \<Rightarrow> 'a \<Rightarrow> 'a list \<Rightarrow> bool" where
  "precedes x y zs = precedesFrom False x y zs"

definition passesOf :: "'a list \<Rightarrow> nat list \<Rightarrow> 'a list" where
  "passesOf xs ks = concat (map (\<lambda>k. take k xs) ks)"

text \<open>
  A rule whose condition is false on the sample payload and whose \<^verbatim>\<open>else\<close> branch counts
  the checks, run with actions enabled until the state settles.
\<close>

definition retryRule :: Rule where
  "retryRule =
     \<lparr> rule_id = ''flag-large-order'', rule_name = ''Flag large orders'',
       rule_priority = None, rule_mode = None,
       rule_when = Compare KCompare (Fact ''order.total'' None) ''>'' (Value (LNum 1000) None),
       rule_then = Some [SetA ''order.flagged'' (Value (LBool True) None)],
       rule_else = Some [IncrementA ''order.checks'' 1],
       rule_actions = None, rule_stopProcessing = None \<rparr>"

definition retryProgram :: Program where
  "retryProgram =
     \<lparr> rules = [retryRule], constraints = None, examples = None, config_ruleEvaluation = None \<rparr>"

definition settleOptions :: ExecutionOptions where
  "settleOptions = \<lparr> opt_mode = None, opt_maxRuleFirings = None, opt_enableActions = Some True,
       opt_loopUntilSettled = Some True, opt_evaluateExamples = None \<rparr>"

text \<open>
  The constants of that run, and what holds of its variables after every pass: no rule
  has fired, the cap is not reached, the pass mutated the state and did not stop early,
  and the clone still holds the order with its total of 120.
\<close>

definition retryConfig :: RunConfig where
  "retryConfig = \<lparr> cfg_state = Ref 3, cfg_maxRuleFirings = 1000, cfg_enableActions = True,
       cfg_mode = ''allMatches'', cfg_loopUntilSettled = True \<rparr>"

definition retryInv :: "RunState \<times> PassResult \<Rightarrow> bool" where
  "retryInv sp =
     (x_firings (fst sp) = 0 \<and> \<not> x_hitRuleLimit (fst sp)
      \<and> mutated (snd sp) \<and> \<not> stopEarly (snd sp)
      \<and> 3 < length (x_heap (fst sp))
      \<and> x_heap (fst sp) ! 3 = Obj [(''order'', Ref 2)]
      \<and> (case x_heap (fst sp) ! 2 of
            Obj kvs \<Rightarrow> map_of kvs ''total'' = Some (Num 120)
          | Arr xs \<Rightarrow> False))"

text \<open>The sample program with one example: an order of 120 is to get a discount of 10.\<close>

definition coverageProgram :: Program where
  "coverageProgram =
     discountProgram\<lparr> examples :=
       Some [\<lparr> example_id = ''e1'',
                example_input = JObj [(''order'', JObj [(''total'', JNum 120)])],
                example_expected = JObj [(''order'', JObj [(''discountPercent'', JNum 10)])] \<rparr>] \<rparr>"

section \<open>Moving the cells of a run\<close>

text \<open>
  Two calls of \<^verbatim>\<open>runProgram\<close> allocate their cells at different addresses of the store, so
  their results are compared up to the addresses of those cells. \<open>shiftVal n d\<close> moves a
  reference to a cell at address \<open>n\<close> or above by \<open>d\<close> and leaves every other value as it
  is. \<open>relocHeap n G h\<close> is the store \<open>h\<close> with the cells \<open>G\<close> put in front of the cell at
  address \<open>n\<close>: the cells below \<open>n\<close> stay, the ones from \<open>n\<close> on move up by the length of
  \<open>G\<close>, and so do the references they hold.
\<close>

definition shiftVal :: "nat \<Rightarrow> nat \<Rightarrow> val \<Rightarrow> val" where
  "shiftVal n d v = (case v of Ref a \<Rightarrow> (if n \<le> a then Ref (a + d) else Ref a) | _ \<Rightarrow> v)"

definition shiftCell :: "nat \<Rightarrow> nat \<Rightarrow> cell \<Rightarrow> cell" where
  "shiftCell n d c =
     (case c of
        Obj kvs \<Rightarrow> Obj (map (\<lambda>kv. (fst kv, shiftVal n d (snd kv))) kvs)
      | Arr xs \<Rightarrow> Arr (map (shiftVal n d) xs))"

definition relocHeap :: "nat \<Rightarrow> heap \<Rightarrow> heap \<Rightarrow> heap" where
  "relocHeap n G h = take n h @ G @ map (shiftCell n (length G)) (drop n h)"


















section \<open>Verified properties\<close>

lemmas path_simps =
  getPathValue_def splitPath_def getProp_def cellAt_def lookupProp_def evaluateOperand_def

subsection \<open>Comparisons on missing and non-numeric operands\<close>

text \<open>
  Claim C5. In a compare condition, when either operand resolves to \<^verbatim>\<open>undefined\<close> the
  result is false, whatever the operator; and under the operators \<^verbatim>\<open>gt\<close>, \<^verbatim>\<open>gte\<close>,
  \<^verbatim>\<open>lt\<close>, \<^verbatim>\<open>lte\<close> and their symbolic spellings the result is false unless both resolved
  operands are numbers. The evaluator is a total function without an error result: no
  path of \<^verbatim>\<open>evaluateCondition\<close> raises.
\<close>

theorem compare_missing_or_non_numeric:
  "(evaluateOperand h data l = Undefined \<or> evaluateOperand h data r = Undefined
      \<longrightarrow> \<not> result (evaluateCondition H h (Compare k l operator r) data))
   \<and> (operator \<in> {''gt'', ''>'', ''gte'', ''>='', ''lt'', ''<'', ''lte'', ''<=''}
        \<and> \<not> (isNumber (evaluateOperand h data l) \<and> isNumber (evaluateOperand h data r))
      \<longrightarrow> \<not> result (evaluateCondition H h (Compare k l operator r) data))"
  by (auto simp: Let_def evaluateComparison_def)

theorem compare_missing_or_non_numeric_witness:
  "evaluateOperand sampleHeap sampleInput (Fact ''order.missing'' None) = Undefined
   \<and> \<not> result (evaluateCondition sampleHost sampleHeap
         (Compare KCompare (Fact ''order.missing'' None) ''neq'' (Value (LNum 100) None))
         sampleInput)
   \<and> \<not> isNumber (evaluateOperand sampleHeap sampleInput (Fact ''order.note'' None))
   \<and> \<not> result (evaluateCondition sampleHost sampleHeap
         (Compare KComparison (Fact ''order.note'' None) ''<'' (Fact ''order.total'' None))
         sampleInput)"
proof -
  have a: "evaluateOperand sampleHeap sampleInput (Fact ''order.missing'' None) = Undefined"
    by (simp add: path_simps sampleHeap_def sampleInput_def)
  have b: "\<not> isNumber (evaluateOperand sampleHeap sampleInput (Fact ''order.note'' None))"
    by (simp add: path_simps sampleHeap_def sampleInput_def isNumber_def)
  from a compare_missing_or_non_numeric
         [of sampleHeap sampleInput "Fact ''order.missing'' None" "Value (LNum 100) None"
             sampleHost KCompare "''neq''"]
  have c: "\<not> result (evaluateCondition sampleHost sampleHeap
         (Compare KCompare (Fact ''order.missing'' None) ''neq'' (Value (LNum 100) None))
         sampleInput)" by blast
  from b compare_missing_or_non_numeric
         [of sampleHeap sampleInput "Fact ''order.note'' None" "Fact ''order.total'' None"
             sampleHost KComparison "''<''"]
  have d: "\<not> result (evaluateCondition sampleHost sampleHeap
         (Compare KComparison (Fact ''order.note'' None) ''<'' (Fact ''order.total'' None))
         sampleInput)" by simp
  from a b c d show ?thesis by blast
qed

subsection \<open>Patterns that do not compile\<close>

text \<open>
  Claim C7. When the pattern of a matches condition does not compile as a regular
  expression, the evaluation yields a condition trace as for any other condition: its
  result is whether the resolved value, a string, contains the pattern as a substring
  (and false when the resolved value is not a string, which has no substrings), and its
  details are the resolved value and the pattern. The trace carries nothing of the
  compile failure.
\<close>

theorem matches_fallback:
  "RegExp H pattern (ci = Some True) = None \<Longrightarrow>
   evaluateCondition H h (Matches v pattern ci) data =
     ConditionTrace (Matches v pattern ci)
       (case evaluateOperand h data v of Str s \<Rightarrow> includesStr s pattern | _ \<Rightarrow> False)
       (Some (MatchesDetails (evaluateOperand h data v) pattern)) None"
  by (simp add: Let_def split: val.splits)

theorem matches_fallback_witness:
  "RegExp sampleHost ''(b'' (Some True = Some True) = None
   \<and> evaluateCondition sampleHost sampleHeap (Matches (Fact ''order.note'' None) ''(b'' (Some True))
        sampleInput =
     ConditionTrace (Matches (Fact ''order.note'' None) ''(b'' (Some True)) True
       (Some (MatchesDetails (Str ''a(b'') ''(b'')) None"
proof -
  have a: "RegExp sampleHost ''(b'' (Some True = Some True) = None"
    by (simp add: sampleHost_def balanced_def)
  have b: "evaluateOperand sampleHeap sampleInput (Fact ''order.note'' None) = Str ''a(b''"
    by (simp add: path_simps sampleHeap_def sampleInput_def)
  from matches_fallback [OF a, of sampleHeap "Fact ''order.note'' None" sampleInput] a b
  show ?thesis by simp
qed

subsection \<open>Static conflicts between rules of equal priority\<close>








subsection \<open>The caller's store is framed\<close>

lemma frame_refl: "frame n h h"
  by (simp add: frame_def)

lemma frame_trans: "frame n h h1 \<Longrightarrow> frame n h1 h2 \<Longrightarrow> frame n h h2"
  by (simp add: frame_def)

lemma prefix_frame: "prefix h h' \<Longrightarrow> n \<le> length h \<Longrightarrow> frame n h h'"
  by (auto simp: frame_def prefix_def)

lemma frame_length: "frame n h h' \<Longrightarrow> length h \<le> length h'"
  by (simp add: frame_def)

lemma freshVal_mono: "freshVal n h v \<Longrightarrow> length h \<le> length h' \<Longrightarrow> freshVal n h' v"
  by (auto simp: freshVal_def split: val.splits)

lemma freshVal_scalar [simp]:
  "freshVal n h Undefined" "freshVal n h Null" "freshVal n h (Bool b)" "freshVal n h (Num x)"
  "freshVal n h (Str s)"
  by (simp_all add: freshVal_def)

lemma lookupProp_cases: "lookupProp kvs key = Undefined \<or> lookupProp kvs key \<in> snd ` set kvs"
  by (auto simp: lookupProp_def split: option.splits dest: map_of_SomeD intro: rev_image_eqI)

lemma indexProp_cases:
  "indexProp xs key = Undefined \<or> (\<exists>x. indexProp xs key = Num x) \<or> indexProp xs key \<in> set xs"
  by (auto simp: indexProp_def split: option.splits)

lemma getProp_fresh:
  assumes o: "owned n h" and f: "freshVal n h v"
  shows "freshVal n h (getProp h v key)"
proof (cases v)
  case (Ref a)
  with f have a: "n \<le> a" "a < length h" by (simp_all add: freshVal_def)
  with o have c: "\<forall>w\<in>set (cellVals (h ! a)). freshVal n h w" by (simp add: owned_def)
  show ?thesis
  proof (cases "h ! a")
    case (Obj kvs)
    with c lookupProp_cases [of kvs key] Ref a show ?thesis
      by (auto simp: getProp_def cellAt_def cellVals_def)
  next
    case (Arr xs)
    with c indexProp_cases [of xs key] Ref a show ?thesis
      by (auto simp: getProp_def cellAt_def cellVals_def)
  qed
next
  case (Str s)
  with indexProp_cases [of "map (\<lambda>c. Str [c]) s" key] show ?thesis
    by (auto simp: getProp_def)
qed (simp_all add: getProp_def)

lemma getPathValue_fresh:
  assumes o: "owned n h" and f: "freshVal n h v"
  shows "freshVal n h (getPathValue h v pth)"
proof -
  have "freshVal n h (foldl (\<lambda>acc key. if acc \<noteq> Null \<and> acc \<noteq> Undefined
            then getProp h acc key else Undefined) v ks)" for ks
    using f
  proof (induction ks arbitrary: v)
    case Nil
    then show ?case by simp
  next
    case (Cons k ks)
    then show ?case using getProp_fresh [OF o] by simp
  qed
  then show ?thesis by (simp add: getPathValue_def)
qed

lemma evaluateOperand_fresh:
  "owned n h \<Longrightarrow> freshVal n h data \<Longrightarrow> freshVal n h (evaluateOperand h data v)"
  by (cases v; cases "case v of Value l u \<Rightarrow> l | _ \<Rightarrow> LNull")
     (auto simp: evaluateOperand_def getPathValue_fresh)

lemma update_vals: "set (map snd (AList.update k v kvs)) \<subseteq> insert v (set (map snd kvs))"
  by (induction kvs) auto

lemma setProp_frame:
  assumes o: "owned n h" and fc: "freshVal n h cur" and fv: "freshVal n h v"
    and s: "setProp h cur key v = Inr h'"
  shows "owned n h' \<and> frame n h h' \<and> length h' = length h"
proof -
  from s obtain a kvs where cur: "cur = Ref a" and a: "a < length h" and c: "h ! a = Obj kvs"
    and h': "h' = h[a := Obj (AList.update key v kvs)]"
    by (auto simp: setProp_def cellAt_def split: val.splits cell.splits if_splits)
  from fc cur have na: "n \<le> a" by (simp add: freshVal_def)
  have len: "length h' = length h" using h' by simp
  have fr: "frame n h h'" using h' na by (simp add: frame_def)
  have "owned n h'"
    unfolding owned_def
  proof (intro conjI allI impI ballI)
    show "n \<le> length h'" using o len by (simp add: owned_def)
  next
    fix b w assume b: "n \<le> b \<and> b < length h'" and w: "w \<in> set (cellVals (h' ! b))"
    have "freshVal n h w"
    proof (cases "b = a")
      case True
      with w h' a have "w \<in> set (map snd (AList.update key v kvs))" by (simp add: cellVals_def)
      with update_vals [of key v kvs] have "w = v \<or> w \<in> set (map snd kvs)" by auto
      moreover from o na a have "\<forall>x\<in>set (cellVals (h ! a)). freshVal n h x"
        by (simp add: owned_def)
      ultimately show ?thesis using fv c by (auto simp: cellVals_def)
    next
      case False
      with w h' have "w \<in> set (cellVals (h ! b))" by simp
      with o b len show ?thesis by (simp add: owned_def)
    qed
    then show "freshVal n h' w" using len by (simp add: freshVal_def split: val.splits)
  qed
  with fr len show ?thesis by simp
qed

lemma owned_alloc:
  assumes o: "owned n h" and c: "\<forall>v\<in>set (cellVals c). freshVal n (h @ [c]) v"
  shows "owned n (h @ [c])"
  unfolding owned_def
proof (intro conjI allI impI ballI)
  show "n \<le> length (h @ [c])" using o by (simp add: owned_def)
next
  fix a w assume a: "n \<le> a \<and> a < length (h @ [c])" and w: "w \<in> set (cellVals ((h @ [c]) ! a))"
  show "freshVal n (h @ [c]) w"
  proof (cases "a < length h")
    case True
    with w have "w \<in> set (cellVals (h ! a))" by (simp add: nth_append)
    with o a True have "freshVal n h w" by (simp add: owned_def)
    then show ?thesis by (rule freshVal_mono) simp
  next
    case False
    with a have "a = length h" by simp
    with w c show ?thesis by simp
  qed
qed

lemma fresh_new: "n \<le> length h \<Longrightarrow> freshVal n (h @ [c]) (Ref (length h))"
  by (simp add: freshVal_def)

lemma frame_alloc: "n \<le> length h \<Longrightarrow> frame n h (h @ [c])"
  by (simp add: frame_def)

lemma descend_frame:
  "owned n h \<Longrightarrow> freshVal n h cur \<Longrightarrow> descend h cur keys = Inr (h', cur') \<Longrightarrow>
   owned n h' \<and> frame n h h' \<and> freshVal n h' cur'"
proof (induction keys arbitrary: h cur)
  case Nil
  then show ?case by (simp add: frame_refl)
next
  case (Cons key keys)
  show ?case
  proof (cases "getProp h cur key = Undefined")
    case False
    with Cons.prems have d: "descend h (getProp h cur key) keys = Inr (h', cur')"
      by (simp split: if_splits)
    from Cons.IH [OF Cons.prems(1) getProp_fresh [OF Cons.prems(1,2)] d] show ?thesis .
  next
    case True
    let ?h0 = "h @ [Obj []]"
    from True Cons.prems obtain h1 where
      sp: "setProp ?h0 cur key (Ref (length h)) = Inr h1" and
      d: "descend h1 (getProp h1 cur key) keys = Inr (h', cur')"
      by (auto split: if_splits sum.splits)
    have o0: "owned n ?h0" by (rule owned_alloc [OF Cons.prems(1)]) (simp add: cellVals_def)
    have n: "n \<le> length h" using Cons.prems(1) by (simp add: owned_def)
    have fc: "freshVal n ?h0 cur" by (rule freshVal_mono [OF Cons.prems(2)]) simp
    from setProp_frame [OF o0 fc fresh_new [OF n] sp]
    have o1: "owned n h1" and f1: "frame n ?h0 h1" and l1: "length h1 = length ?h0" by simp_all
    have fc1: "freshVal n h1 cur" by (rule freshVal_mono [OF fc]) (simp add: l1)
    from Cons.IH [OF o1 getProp_fresh [OF o1 fc1] d]
    have "owned n h'" "frame n h1 h'" "freshVal n h' cur'" by simp_all
    with frame_trans [OF frame_trans [OF frame_alloc [OF n] f1]] show ?thesis by blast
  qed
qed

lemma setPathValue_frame:
  assumes o: "owned n h" and fd: "freshVal n h data" and fv: "freshVal n h v"
    and s: "setPathValue h data pth v = Inr (h', prev)"
  shows "owned n h' \<and> frame n h h'"
proof -
  from s obtain h1 cur where d: "descend h data (butlast (splitPath pth)) = Inr (h1, cur)"
    and sp: "setProp h1 cur (last (splitPath pth)) v = Inr h'"
    by (auto simp: setPathValue_def Let_def split: sum.splits prod.splits if_splits)
  from descend_frame [OF o fd d] have o1: "owned n h1" and f1: "frame n h h1"
    and fc: "freshVal n h1 cur" by simp_all
  have fv1: "freshVal n h1 v" by (rule freshVal_mono [OF fv]) (use f1 in \<open>simp add: frame_def\<close>)
  from setProp_frame [OF o1 fc fv1 sp] frame_trans [OF f1] show ?thesis by blast
qed

lemma arrayOf_fresh:
  assumes o: "owned n h" and f: "freshVal n h v" and a: "arrayOf h v = Some xs"
  shows "\<forall>x\<in>set xs. freshVal n h x"
proof -
  from a obtain b where v: "v = Ref b" and b: "b < length h" and c: "h ! b = Arr xs"
    by (auto simp: arrayOf_def cellAt_def split: val.splits option.splits cell.splits if_splits)
  from f v have "n \<le> b" by (simp add: freshVal_def)
  with o b have "\<forall>x\<in>set (cellVals (h ! b)). freshVal n h x" by (simp add: owned_def)
  with c show ?thesis by (simp add: cellVals_def)
qed

lemma spreadEntries_fresh:
  assumes o: "owned n h" and f: "freshVal n h v"
  shows "\<forall>x\<in>set (map snd (spreadEntries h v)). freshVal n h x"
proof (cases v)
  case (Ref b)
  show ?thesis
  proof (cases "b < length h")
    case True
    from f Ref have "n \<le> b" by (simp add: freshVal_def)
    with o True have c: "\<forall>x\<in>set (cellVals (h ! b)). freshVal n h x" by (simp add: owned_def)
    show ?thesis
    proof (cases "h ! b")
      case (Obj kvs)
      with c Ref True show ?thesis by (simp add: spreadEntries_def cellAt_def cellVals_def)
    next
      case (Arr xs)
      have "set (map snd (zip (map showNat [0..<length xs]) xs)) \<subseteq> set xs"
        by (auto dest: set_zip_rightD)
      with c Arr Ref True show ?thesis
        by (auto simp: spreadEntries_def cellAt_def cellVals_def)
    qed
  next
    case False
    with Ref show ?thesis by (simp add: spreadEntries_def cellAt_def)
  qed
qed (simp_all add: spreadEntries_def)

lemma applyAction_frame:
  assumes o: "owned n h" and fd: "freshVal n h data"
    and ap: "applyAction a h data rid aid en pw = Inr (h', pw', r)"
  shows "owned n h' \<and> frame n h h'"
proof -
  have n: "n \<le> length h" using o by (simp add: owned_def)
  show ?thesis
  proof (cases a)
    case (SetA tgt v)
    show ?thesis
    proof (cases en)
      case True
      with ap SetA obtain prev where
        "setPathValue h data tgt (evaluateOperand h data v) = Inr (h', prev)"
        by (auto simp: Let_def split: sum.splits prod.splits)
      from setPathValue_frame [OF o fd evaluateOperand_fresh [OF o fd] this] show ?thesis .
    next
      case False
      with ap SetA have "h' = h" by (auto simp: Let_def)
      with o show ?thesis by (simp add: frame_refl)
    qed
  next
    case (IncrementA tgt d)
    show ?thesis
    proof (cases en)
      case True
      with ap IncrementA obtain x prev where "setPathValue h data tgt (Num x) = Inr (h', prev)"
        by (auto simp: Let_def split: sum.splits prod.splits if_splits)
      from setPathValue_frame [OF o fd _ this] show ?thesis by simp
    next
      case False
      with ap IncrementA have "h' = h" by (auto simp: Let_def)
      with o show ?thesis by (simp add: frame_refl)
    qed
  next
    case (AppendA tgt v)
    let ?cur = "getPathValue h data tgt"
    let ?v = "evaluateOperand h data v"
    let ?c1 = "Arr (case arrayOf h ?cur of Some xs \<Rightarrow> xs @ [?v] | None \<Rightarrow> [?v])"
    let ?h1 = "h @ [?c1]"
    let ?h2 = "(if arrayOf h ?cur = None \<and> ?cur = Undefined then ?h1 @ [Arr []] else ?h1)"
    have fcur: "freshVal n h ?cur" by (rule getPathValue_fresh [OF o fd])
    have fv: "freshVal n h ?v" by (rule evaluateOperand_fresh [OF o fd])
    have "\<forall>x\<in>set (cellVals ?c1). freshVal n h x"
      using arrayOf_fresh [OF o fcur] fv by (auto simp: cellVals_def split: option.splits)
    then have "\<forall>x\<in>set (cellVals ?c1). freshVal n ?h1 x"
      by (auto intro: freshVal_mono)
    from owned_alloc [OF o this] have o1: "owned n ?h1" .
    have o1': "owned n (?h1 @ [Arr []])"
      by (rule owned_alloc [OF o1]) (simp add: cellVals_def)
    have o2: "owned n ?h2"
    proof (cases "arrayOf h ?cur = None \<and> ?cur = Undefined")
      case True
      then have "?h2 = ?h1 @ [Arr []]" by (rule if_P)
      with o1' show ?thesis by (simp only:)
    next
      case False
      then have "?h2 = ?h1" by (rule if_not_P)
      with o1 show ?thesis by (simp only:)
    qed
    have f2: "frame n h ?h2"
      using frame_alloc [OF n, of ?c1] n by (auto simp: frame_def)
    have fd2: "freshVal n ?h2 data" by (rule freshVal_mono [OF fd]) simp
    have fn: "freshVal n ?h2 (Ref (length h))" using n by (simp add: freshVal_def)
    show ?thesis
    proof (cases en)
      case True
      with ap AppendA obtain prev where
        "setPathValue ?h2 data tgt (Ref (length h)) = Inr (h', prev)"
        by (auto simp: Let_def split: sum.splits prod.splits if_splits)
      from setPathValue_frame [OF o2 fd2 fn this] frame_trans [OF f2] show ?thesis by blast
    next
      case False
      with ap AppendA have "h' = ?h2" by (auto simp: Let_def split: if_splits)
      with o2 f2 show ?thesis by simp
    qed
  next
    case (EmitA ev pl)
    with ap have "h' = h" by auto
    with o show ?thesis by (simp add: frame_refl)
  next
    case (RouteA q rsn)
    let ?b = "getPathValue h data ''route''"
    let ?c1 = "Obj (AList.update ''reason'' (case rsn of None \<Rightarrow> Undefined | Some r \<Rightarrow> Str r)
                          (AList.update ''toQueue'' (Str q) (spreadEntries h ?b)))"
    let ?h1 = "h @ [?c1]"
    have fb: "freshVal n h ?b" by (rule getPathValue_fresh [OF o fd])
    have "\<forall>x\<in>set (cellVals ?c1). freshVal n h x"
    proof
      fix x assume "x \<in> set (cellVals ?c1)"
      then have "x \<in> insert (case rsn of None \<Rightarrow> Undefined | Some r \<Rightarrow> Str r)
           (insert (Str q) (set (map snd (spreadEntries h ?b))))"
        using update_vals [of "''reason''" "case rsn of None \<Rightarrow> Undefined | Some r \<Rightarrow> Str r"
                "AList.update ''toQueue'' (Str q) (spreadEntries h ?b)"]
              update_vals [of "''toQueue''" "Str q" "spreadEntries h ?b"]
        by (auto simp: cellVals_def)
      then show "freshVal n h x"
        using spreadEntries_fresh [OF o fb] by (auto split: option.splits)
    qed
    then have "\<forall>x\<in>set (cellVals ?c1). freshVal n ?h1 x" by (auto intro: freshVal_mono)
    from owned_alloc [OF o this] have o1: "owned n ?h1" .
    have f1: "frame n h ?h1" by (rule frame_alloc [OF n])
    have fd1: "freshVal n ?h1 data" by (rule freshVal_mono [OF fd]) simp
    have fn: "freshVal n ?h1 (Ref (length h))" using n by (simp add: freshVal_def)
    show ?thesis
    proof (cases en)
      case True
      with ap RouteA obtain prev where
        "setPathValue ?h1 data ''route'' (Ref (length h)) = Inr (h', prev)"
        by (auto simp: Let_def split: sum.splits prod.splits if_splits)
      from setPathValue_frame [OF o1 fd1 fn this] frame_trans [OF f1] show ?thesis by blast
    next
      case False
      with ap RouteA have "h' = ?h1" by (auto simp: Let_def)
      with o1 f1 show ?thesis by simp
    qed
  qed
qed

lemma applyActions_frame:
  "owned n (x_heap s) \<Longrightarrow> freshVal n (x_heap s) data \<Longrightarrow>
   applyActions data en rid as s acc = Inr (s', acc') \<Longrightarrow>
   owned n (x_heap s') \<and> frame n (x_heap s) (x_heap s')"
proof (induction as arbitrary: s acc)
  case Nil
  then show ?case by (simp add: frame_refl)
next
  case (Cons a as)
  let ?aid = "''act-'' @ showNat (length (x_actions s) + length (fst acc) + 1)"
  from Cons.prems(3) obtain h1 pw1 r where
    ap: "applyAction a (x_heap s) data rid ?aid en (x_priorWrites s) = Inr (h1, pw1, r)"
    by (auto simp: Let_def split: sum.splits)
  let ?s1 = "s\<lparr> x_heap := h1, x_priorWrites := pw1,
                x_conflictWarnings := x_conflictWarnings s @ optList (ar_warning r),
                x_actions := x_actions s @ optList (ar_log r) \<rparr>"
  from Cons.prems(3) ap obtain acc1 where
    rest: "applyActions data en rid as ?s1 acc1 = Inr (s', acc')"
    by (auto simp: Let_def)
  from applyAction_frame [OF Cons.prems(1,2) ap] have o1: "owned n h1" and f1: "frame n (x_heap s) h1"
    by simp_all
  have fd1: "freshVal n (x_heap ?s1) data"
    using freshVal_mono [OF Cons.prems(2) frame_length [OF f1]] by simp
  from Cons.IH [of ?s1, OF _ fd1 rest] o1
  have "owned n (x_heap s')" "frame n h1 (x_heap s')" by simp_all
  with frame_trans [OF f1] show ?case by blast
qed

lemma executeRule_frame:
  assumes o: "owned n (x_heap s)" and fd: "freshVal n (x_heap s) (cfg_state c)"
    and e: "executeRule H c rule s pr = Inr (s', pr', brk)"
  shows "owned n (x_heap s') \<and> frame n (x_heap s) (x_heap s')"
proof -
  let ?m = "result (evaluateCondition H (x_heap s) (rule_when rule) (cfg_state c))"
  let ?s1 = "(if ?m then s\<lparr> x_firings := x_firings s + 1 \<rparr> else s)"
  from e obtain s2 acc where
    a: "applyActions (cfg_state c) (cfg_enableActions c) (rule_id rule) (ruleActionsOf rule ?m)
          ?s1 ([], [], []) = Inr (s2, acc)"
    and h: "x_heap s' = x_heap s2"
    by (auto simp: executeRule_def Let_def split: sum.splits prod.splits if_splits)
  have h1: "x_heap ?s1 = x_heap s" by simp
  from applyActions_frame [of n ?s1, OF _ _ a] o fd h1 h show ?thesis by simp
qed

lemma ruleLoop_frame:
  "owned n (x_heap s) \<Longrightarrow> freshVal n (x_heap s) (cfg_state c) \<Longrightarrow>
   ruleLoop H c rs s pr = Inr (s', pr') \<Longrightarrow>
   owned n (x_heap s') \<and> frame n (x_heap s) (x_heap s')"
proof (induction rs arbitrary: s pr)
  case Nil
  then show ?case by (simp add: frame_refl)
next
  case (Cons rule rs)
  from Cons.prems(3) obtain s1 pr1 brk where
    e: "executeRule H c rule s pr = Inr (s1, pr1, brk)"
    by (auto split: sum.splits)
  from executeRule_frame [OF Cons.prems(1,2) e]
  have o1: "owned n (x_heap s1)" and f1: "frame n (x_heap s) (x_heap s1)" by simp_all
  show ?case
  proof (cases brk)
    case True
    with Cons.prems(3) e have "s' = s1" by simp
    with o1 f1 show ?thesis by simp
  next
    case False
    with Cons.prems(3) e have r: "ruleLoop H c rs s1 pr1 = Inr (s', pr')" by simp
    have fd1: "freshVal n (x_heap s1) (cfg_state c)"
      by (rule freshVal_mono [OF Cons.prems(2) frame_length [OF f1]])
    from Cons.IH [OF o1 fd1 r] frame_trans [OF f1] show ?thesis by blast
  qed
qed

text \<open>
  An invariant of the run state that every pass preserves holds when the loop over the
  passes returns.
\<close>

lemma passLoop_invariant:
  assumes run: "passLoop H c rs sp = Some y"
  shows "(\<And>s s1 pr1. I s \<Longrightarrow> executePass H c rs s = Inr (s1, pr1) \<Longrightarrow> I s1) \<Longrightarrow>
     I (fst sp) \<Longrightarrow> y = Inr s' \<Longrightarrow> I s'"
  using run
proof (induction arbitrary: s' rule: passLoop.raw_induct [rotated 1, consumes 1])
  case (1 loop H c rs sp y)
  have step: "I s1" if "I s" "executePass H c rs s = Inr (s1, pr1)" for s s1 pr1
    using that "1.prems" by blast
  have i: "I (fst sp)" using "1.prems" by blast
  have y: "y = Inr s'" using "1.prems" by blast
  have body: "(if cfg_loopUntilSettled c \<and> mutated (snd sp) \<and> \<not> stopEarly (snd sp)
         \<and> \<not> x_hitRuleLimit (fst sp)
      then case executePass H c rs (fst sp) of Inl e \<Rightarrow> Some (Inl e)
           | Inr sp' \<Rightarrow> loop H c rs sp'
      else Some (Inr (fst sp))) = Some y" using "1.prems" "1.hyps" by blast
  show ?case
  proof (cases "cfg_loopUntilSettled c \<and> mutated (snd sp) \<and> \<not> stopEarly (snd sp)
                  \<and> \<not> x_hitRuleLimit (fst sp)")
    case False
    with body y have "s' = fst sp" by (auto split: if_splits)
    with i show ?thesis by simp
  next
    case True
    with body y obtain sp1 where
      e: "executePass H c rs (fst sp) = Inr sp1" and p: "loop H c rs sp1 = Some (Inr s')"
      by (auto split: if_splits sum.splits)
    from step [OF i, of "fst sp1" "snd sp1"] e have i1: "I (fst sp1)" by simp
    from "1.IH" [OF p _ i1] step show ?thesis by blast
  qed
qed

lemma runFrom_frame:
  assumes o: "owned n h" and f: "freshVal n h st"
    and run: "runFrom H p h st opts = Some (Inr (h', r))"
  shows "owned n h' \<and> frame n h h'"
proof -
  let ?c = "runConfig p st opts"
  let ?rs = "sortRules H (rules p)"
  let ?I = "\<lambda>s. owned n (x_heap s) \<and> frame n h (x_heap s)"
  have st: "cfg_state ?c = st" by (simp add: runConfig_def)
  have step: "?I s1" if i: "?I s" and e: "executePass H ?c ?rs s = Inr (s1, pr1)" for s s1 pr1
  proof -
    from i have "length h \<le> length (x_heap s)" by (simp add: frame_def)
    from freshVal_mono [OF f this] st have "freshVal n (x_heap s) (cfg_state ?c)" by simp
    from ruleLoop_frame [OF _ this e [unfolded executePass_def]] i frame_trans [of n h]
    show ?thesis by blast
  qed
  from run obtain sp s' where
    e: "executePass H ?c ?rs (initialState h) = Inr sp"
    and l: "passLoop H ?c ?rs sp = Some (Inr s')"
    and h': "h' = x_heap s'"
    by (auto simp: runFrom_def Let_def split: sum.splits option.splits)
  have i0: "?I (initialState h)" using o by (simp add: initialState_def frame_refl)
  from step [OF i0, of "fst sp" "snd sp"] e have "?I (fst sp)" by simp
  from passLoop_invariant [of H ?c ?rs sp "Inr s'" ?I s', OF l step this] h' show ?thesis by simp
qed

lemma parse_frame:
  "owned n h \<Longrightarrow> parse h j = (h', v) \<Longrightarrow> owned n h' \<and> prefix h h' \<and> freshVal n h' v"
  "owned n h \<Longrightarrow> parseList h js = (h', vs) \<Longrightarrow>
     owned n h' \<and> prefix h h' \<and> (\<forall>v\<in>set vs. freshVal n h' v)"
  "owned n h \<Longrightarrow> parseFields h fs = (h', kvs) \<Longrightarrow>
     owned n h' \<and> prefix h h' \<and> (\<forall>v\<in>set (map snd kvs). freshVal n h' v)"
proof (induction h j and h js and h fs arbitrary: h' v and h' vs and h' kvs
        rule: parse_parseList_parseFields.induct)
  case (5 h js)
  obtain h1 vs where p: "parseList h js = (h1, vs)" by (cases "parseList h js")
  from 5(1) [OF 5(2) p] have o1: "owned n h1" and p1: "prefix h h1"
    and f1: "\<forall>v\<in>set vs. freshVal n h1 v" by simp_all
  from 5(3) p have h': "h' = h1 @ [Arr vs]" and v: "v = Ref (length h1)" by simp_all
  have "\<forall>x\<in>set (cellVals (Arr vs)). freshVal n (h1 @ [Arr vs]) x"
    using f1 by (auto simp: cellVals_def intro: freshVal_mono)
  from owned_alloc [OF o1 this] have "owned n h'" using h' by simp
  moreover have "prefix h h'" using p1 h' by (auto simp: prefix_def)
  moreover have "freshVal n h' v" using h' v o1 by (simp add: freshVal_def owned_def)
  ultimately show ?case by simp
next
  case (6 h fs)
  obtain h1 kvs where p: "parseFields h fs = (h1, kvs)" by (cases "parseFields h fs")
  from 6(1) [OF 6(2) p] have o1: "owned n h1" and p1: "prefix h h1"
    and f1: "\<forall>v\<in>set (map snd kvs). freshVal n h1 v" by simp_all
  from 6(3) p have h': "h' = h1 @ [Obj kvs]" and v: "v = Ref (length h1)" by simp_all
  have "\<forall>x\<in>set (cellVals (Obj kvs)). freshVal n (h1 @ [Obj kvs]) x"
    using f1 by (auto simp: cellVals_def intro: freshVal_mono)
  from owned_alloc [OF o1 this] have "owned n h'" using h' by simp
  moreover have "prefix h h'" using p1 h' by (auto simp: prefix_def)
  moreover have "freshVal n h' v" using h' v o1 by (simp add: freshVal_def owned_def)
  ultimately show ?case by simp
next
  case (8 h j js)
  obtain h1 x where p: "parse h j = (h1, x)" by (cases "parse h j")
  obtain h2 xs where q: "parseList h1 js = (h2, xs)" by (cases "parseList h1 js")
  from 8(1) [OF 8(3) p] have o1: "owned n h1" and p1: "prefix h h1" and f1: "freshVal n h1 x"
    by simp_all
  from 8(2) [OF p [symmetric] o1 q] have o2: "owned n h2" and p2: "prefix h1 h2"
    and f2: "\<forall>v\<in>set xs. freshVal n h2 v" by simp_all
  from 8(4) p q have e: "h' = h2" "vs = x # xs" by simp_all
  have "freshVal n h2 x" using f1 p2 by (auto intro: freshVal_mono simp: prefix_def)
  with o2 p1 p2 f2 e show ?case by (auto intro: prefix_order.trans)
next
  case (10 h kj fs)
  obtain h1 x where p: "parse h (snd kj) = (h1, x)" by (cases "parse h (snd kj)")
  obtain h2 xs where q: "parseFields h1 fs = (h2, xs)" by (cases "parseFields h1 fs")
  from 10(1) [OF 10(3) p] have o1: "owned n h1" and p1: "prefix h h1" and f1: "freshVal n h1 x"
    by simp_all
  from 10(2) [OF p [symmetric] o1 q] have o2: "owned n h2" and p2: "prefix h1 h2"
    and f2: "\<forall>v\<in>set (map snd xs). freshVal n h2 v" by simp_all
  from 10(4) p q have e: "h' = h2" "kvs = (fst kj, x) # xs" by simp_all
  have "freshVal n h2 x" using f1 p2 by (auto intro: freshVal_mono simp: prefix_def)
  with o2 p1 p2 f2 e show ?case by (auto intro: prefix_order.trans)
qed auto

lemma owned_base: "owned (length h) h"
  by (auto simp: owned_def)

lemma frame_base: "frame (length h) h h' \<Longrightarrow> take (length h) h' = h"
  by (simp add: frame_def)

lemma take_prefix: "prefix a b \<Longrightarrow> take (length a) b = a"
  by (auto simp: prefix_def)


lemma runExample_frame:
  assumes o: "owned n h" and r: "runExample H p h ex = Some (Inr (h', er))"
  shows "owned n h' \<and> frame n h h'"
proof -
  obtain h1 st where p: "parse h (example_input ex) = (h1, st)"
    by (cases "parse h (example_input ex)")
  from parse_frame(1) [OF o p] have o1: "owned n h1" and p1: "prefix h h1"
    and f1: "freshVal n h1 st" by simp_all
  from r p obtain r0 where "runFrom H p h1 st (Some exampleOptions) = Some (Inr (h', r0))"
    by (auto simp: runExample_def Let_def split: option.splits sum.splits prod.splits)
  from runFrom_frame [OF o1 f1 this] have "owned n h'" "frame n h1 h'" by simp_all
  moreover have "frame n h h1" using prefix_frame [OF p1] o by (simp add: owned_def)
  ultimately show ?thesis using frame_trans by blast
qed

lemma mapExamples_frame:
  "owned n h \<Longrightarrow> mapExamples H p h exs = Some (Inr (h', ers)) \<Longrightarrow>
   owned n h' \<and> frame n h h'"
proof (induction exs arbitrary: h ers)
  case Nil
  then show ?case by (simp add: frame_refl)
next
  case (Cons ex exs)
  from Cons.prems(2) obtain h1 er ers1 where
    r: "runExample H p h ex = Some (Inr (h1, er))"
    and m: "mapExamples H p h1 exs = Some (Inr (h', ers1))"
    by (auto split: option.splits sum.splits prod.splits)
  from runExample_frame [OF Cons.prems(1) r] have o1: "owned n h1" and f1: "frame n h h1"
    by simp_all
  from Cons.IH [OF o1 m] frame_trans [OF f1] show ?case by blast
qed

lemma runProgram_parts:
  assumes "runProgram H p h input opts = Some (Inr (h', r))"
  obtains h1 st h2 r0 where
    "cloneInput h input = Inr (h1, st)"
    "runFrom H p h1 st opts = Some (Inr (h2, r0))"
    "(h' = h2 \<and> r = r0) \<or>
     (\<exists>exs reports. optionOf opts opt_evaluateExamples = Some True \<and> examples p = Some exs
        \<and> mapExamples H p h2 exs = Some (Inr (h', reports))
        \<and> r = r0\<lparr> testReport := Some reports \<rparr>)"
  using assms
  by (auto simp: runProgram_def split: sum.splits option.splits prod.splits if_splits)

lemma returnedE:
  assumes "returned x"
  obtains h' r where "x = Some (Inr (h', r))"
  using assms by (auto simp: returned_def split: option.splits sum.splits)

lemma finalE:
  assumes "x = Some (Inr (h', r))"
  shows "finalHeap x = Some h'" "finalResult x = Some r"
  using assms by (simp_all add: finalHeap_def finalResult_def)



subsection \<open>Dry runs\<close>

lemma applyAction_dry:
  assumes "applyAction a h data rid aid False [] = Inr (h', pw', r)"
  shows "prefix h h' \<and> pw' = [] \<and> ar_diffs r = [] \<and> ar_log r = None \<and> ar_warning r = None
         \<and> \<not> at_applied (ar_trace r) \<and> at_conflict (ar_trace r) \<noteq> Some True"
  using assms
  by (cases a) (auto simp: Let_def writeTrace_def writeLog_def markConflict_def)

lemma applyAction_dry_total:
  "\<exists>x. applyAction a h data rid aid False pw = Inr x"
  by (cases a) (auto simp: Let_def)

lemma applyActions_keeps:
  "applyActions data en rid as s acc = Inr (s', acc') \<Longrightarrow>
   x_traces s' = x_traces s \<and> x_firings s' = x_firings s \<and> x_hitRuleLimit s' = x_hitRuleLimit s"
proof (induction as arbitrary: s acc)
  case Nil
  then show ?case by simp
next
  case (Cons a as)
  then show ?case
    by (auto simp: Let_def split: sum.splits prod.splits)
qed

lemma applyActions_dry:
  "x_priorWrites s = [] \<Longrightarrow>
   \<exists>s' ats. applyActions data False rid as s acc = Inr (s', ats, fst (snd acc), snd (snd acc))
     \<and> prefix (x_heap s) (x_heap s') \<and> x_actions s' = x_actions s
     \<and> x_priorWrites s' = [] \<and> x_conflictWarnings s' = x_conflictWarnings s
     \<and> (\<forall>t\<in>set ats - set (fst acc). \<not> at_applied t \<and> at_conflict t \<noteq> Some True)"
proof (induction as arbitrary: s acc)
  case Nil
  then show ?case by (cases acc) auto
next
  case (Cons a as)
  let ?aid = "''act-'' @ showNat (length (x_actions s) + length (fst acc) + 1)"
  from applyAction_dry_total [of a "x_heap s" data rid ?aid "x_priorWrites s"]
  obtain h' pw' r where ap: "applyAction a (x_heap s) data rid ?aid False [] = Inr (h', pw', r)"
    using Cons.prems by (cases, auto)
  note d = applyAction_dry [OF ap]
  let ?s1 = "s\<lparr> x_heap := h', x_priorWrites := pw',
                x_conflictWarnings := x_conflictWarnings s @ optList (ar_warning r),
                x_actions := x_actions s @ optList (ar_log r) \<rparr>"
  let ?acc1 = "(fst acc @ [ar_trace r], fst (snd acc) @ ar_diffs r, snd (snd acc) @ optList (ar_warning r))"
  have pw1: "x_priorWrites ?s1 = []" using d by simp
  from Cons.IH [OF pw1, of ?acc1]
  obtain s' ats where ih:
    "applyActions data False rid as ?s1 ?acc1 = Inr (s', ats, fst (snd ?acc1), snd (snd ?acc1))"
    "prefix (x_heap ?s1) (x_heap s')" "x_actions s' = x_actions ?s1"
    "x_priorWrites s' = []" "x_conflictWarnings s' = x_conflictWarnings ?s1"
    "\<forall>t\<in>set ats - set (fst ?acc1). \<not> at_applied t \<and> at_conflict t \<noteq> Some True"
    by blast
  have step: "applyActions data False rid (a # as) s acc = applyActions data False rid as ?s1 ?acc1"
    using ap Cons.prems by (simp add: Let_def)
  have "applyActions data False rid (a # as) s acc = Inr (s', ats, fst (snd acc), snd (snd acc))"
    using step ih(1) d by (simp add: optList_def)
  moreover have "prefix (x_heap s) (x_heap s')"
    using ih(2) d by (auto intro: prefix_order.trans)
  moreover have "x_actions s' = x_actions s" using ih(3) d by (simp add: optList_def)
  moreover have "x_conflictWarnings s' = x_conflictWarnings s" using ih(5) d by (simp add: optList_def)
  moreover have "\<forall>t\<in>set ats - set (fst acc). \<not> at_applied t \<and> at_conflict t \<noteq> Some True"
    using ih(6) d by auto
  ultimately show ?case using ih(4) by blast
qed

lemma executeRule_dry:
  assumes en: "\<not> cfg_enableActions c" and pw: "x_priorWrites s = []"
  shows "\<exists>s' pr' brk t. executeRule H c rule s pr = Inr (s', pr', brk)
     \<and> prefix (x_heap s) (x_heap s') \<and> x_actions s' = x_actions s
     \<and> x_priorWrites s' = [] \<and> x_conflictWarnings s' = x_conflictWarnings s
     \<and> mutated pr' = mutated pr
     \<and> x_traces s' = x_traces s @ [t] \<and> dryTrace t"
proof -
  let ?m = "result (evaluateCondition H (x_heap s) (rule_when rule) (cfg_state c))"
  let ?s1 = "(if ?m then s\<lparr> x_firings := x_firings s + 1 \<rparr> else s)"
  have pw1: "x_priorWrites ?s1 = []" using pw by simp
  from applyActions_dry [OF pw1, of "cfg_state c" "rule_id rule" "ruleActionsOf rule ?m" "([], [], [])"]
  obtain s2 ats where a:
    "applyActions (cfg_state c) False (rule_id rule) (ruleActionsOf rule ?m) ?s1 ([], [], [])
       = Inr (s2, ats, [], [])"
    "prefix (x_heap ?s1) (x_heap s2)" "x_actions s2 = x_actions ?s1"
    "x_priorWrites s2 = []" "x_conflictWarnings s2 = x_conflictWarnings ?s1"
    "\<forall>t\<in>set ats. \<not> at_applied t \<and> at_conflict t \<noteq> Some True"
    by auto
  from applyActions_keeps [OF a(1)] have k: "x_traces s2 = x_traces s" by simp
  have b: "prefix (x_heap s) (x_heap s2)" "x_actions s2 = x_actions s"
    "x_conflictWarnings s2 = x_conflictWarnings s"
    using a(2,3,5) by (simp_all split: if_splits)
  show ?thesis
    using a(1,4,6) b k en
    by (auto simp: executeRule_def Let_def dryTrace_def)
qed

lemma ruleLoop_dry:
  assumes en: "\<not> cfg_enableActions c"
  shows "x_priorWrites s = [] \<Longrightarrow>
     \<exists>s' pr' ts. ruleLoop H c rs s pr = Inr (s', pr')
     \<and> prefix (x_heap s) (x_heap s') \<and> x_actions s' = x_actions s
     \<and> x_priorWrites s' = [] \<and> x_conflictWarnings s' = x_conflictWarnings s
     \<and> mutated pr' = mutated pr
     \<and> x_traces s' = x_traces s @ ts \<and> (\<forall>t\<in>set ts. dryTrace t)"
proof (induction rs arbitrary: s pr)
  case Nil
  then show ?case by simp
next
  case (Cons rule rs)
  from executeRule_dry [OF en Cons.prems, of H rule pr]
  obtain s1 pr1 brk t where e:
    "executeRule H c rule s pr = Inr (s1, pr1, brk)"
    "prefix (x_heap s) (x_heap s1)" "x_actions s1 = x_actions s"
    "x_priorWrites s1 = []" "x_conflictWarnings s1 = x_conflictWarnings s"
    "mutated pr1 = mutated pr" "x_traces s1 = x_traces s @ [t]" "dryTrace t"
    by blast
  show ?case
  proof (cases brk)
    case True
    with e show ?thesis by auto
  next
    case False
    from Cons.IH [OF e(4), of pr1]
    obtain s' pr' ts where ih:
      "ruleLoop H c rs s1 pr1 = Inr (s', pr')"
      "prefix (x_heap s1) (x_heap s')" "x_actions s' = x_actions s1"
      "x_priorWrites s' = []" "x_conflictWarnings s' = x_conflictWarnings s1"
      "mutated pr' = mutated pr1" "x_traces s' = x_traces s1 @ ts" "\<forall>t\<in>set ts. dryTrace t"
      by blast
    have "ruleLoop H c (rule # rs) s pr = Inr (s', pr')" using e(1) False ih(1) by simp
    moreover have "prefix (x_heap s) (x_heap s')" using e(2) ih(2) by (auto intro: prefix_order.trans)
    moreover have "x_traces s' = x_traces s @ (t # ts)" using e(7) ih(7) by simp
    moreover have "\<forall>u\<in>set (t # ts). dryTrace u" using e(8) ih(8) by simp
    ultimately show ?thesis using e ih by (metis (no_types, lifting))
  qed
qed

lemma runFrom_dry:
  assumes en: "optionOf opts opt_enableActions = None"
  shows "\<exists>h' r. runFrom H p h st opts = Some (Inr (h', r))
     \<and> prefix h h' \<and> resultState r = st \<and> actions r = [] \<and> conflictWarnings r = None
     \<and> (\<forall>t\<in>set (trace r). dryTrace t)"
proof -
  let ?c = "runConfig p st opts"
  have ce: "\<not> cfg_enableActions ?c" using en by (simp add: runConfig_def)
  have pw: "x_priorWrites (initialState h) = []" by (simp add: initialState_def)
  from ruleLoop_dry [OF ce pw, of H "sortRules H (rules p)" "\<lparr> fired = False, mutated = False, stopEarly = False \<rparr>"]
  obtain s' pr' ts where l:
    "executePass H ?c (sortRules H (rules p)) (initialState h) = Inr (s', pr')"
    "prefix h (x_heap s')" "x_actions s' = []"
    "x_conflictWarnings s' = []" "\<not> mutated pr'" "x_traces s' = ts" "\<forall>t\<in>set ts. dryTrace t"
    by (auto simp: executePass_def initialState_def)
  have pl: "passLoop H ?c (sortRules H (rules p)) (s', pr') = Some (Inr s')"
    using l(5) by (subst passLoop.simps) simp
  show ?thesis
    using l pl by (simp add: runFrom_def Let_def finish_def)
qed

lemma sample_clone: "cloneInput sampleHeap sampleInput = Inr (sampleClone, Ref 3)"
  by (simp add: cloneInput_def sampleHeap_def sampleInput_def cellAt_def sampleClone_def)

text \<open>
  Claim C10. With no options, or with \<^verbatim>\<open>enableActions\<close> unset, the run is a dry run. If the
  input can be cloned and no examples are to be evaluated, \<^verbatim>\<open>runProgram\<close> returns; and
  whenever it returns, the result state is the clone, every cell of the store as
  \<^verbatim>\<open>cloneInput\<close> left it is unchanged (so the result state is deep-equal to the copied
  input), the action log is empty, there are no conflict warnings, and every rule trace
  has an empty state diff, no warnings, and only actions that were neither applied nor
  flagged as conflicting.
\<close>

theorem dry_run:
  assumes en: "optionOf opts opt_enableActions = None"
    and c: "cloneInput h input = Inr (h1, st)"
  shows "(optionOf opts opt_evaluateExamples \<noteq> Some True
            \<longrightarrow> returned (runProgram H p h input opts))
     \<and> (\<forall>h' r. runProgram H p h input opts = Some (Inr (h', r)) \<longrightarrow>
           resultState r = st \<and> take (length h1) h' = h1 \<and> actions r = []
           \<and> conflictWarnings r = None \<and> (\<forall>t\<in>set (trace r). dryTrace t))"
proof -
  from runFrom_dry [OF en, of H p h1 st] obtain h2 r0 where
    f: "runFrom H p h1 st opts = Some (Inr (h2, r0))" and p12: "prefix h1 h2"
    and r0: "resultState r0 = st" "actions r0 = []" "conflictWarnings r0 = None"
      "\<forall>t\<in>set (trace r0). dryTrace t"
    by blast
  have a: "returned (runProgram H p h input opts)"
    if "optionOf opts opt_evaluateExamples \<noteq> Some True"
    using that c f by (simp add: runProgram_def returned_def)
  have b: "resultState r = st \<and> take (length h1) h' = h1 \<and> actions r = []
           \<and> conflictWarnings r = None \<and> (\<forall>t\<in>set (trace r). dryTrace t)"
    if run: "runProgram H p h input opts = Some (Inr (h', r))" for h' r
  proof -
    from run c f have e: "(h' = h2 \<and> r = r0) \<or>
       (\<exists>exs reports. mapExamples H p h2 exs = Some (Inr (h', reports))
          \<and> r = r0\<lparr> testReport := Some reports \<rparr>)"
      by (auto simp: runProgram_def split: option.splits sum.splits if_splits)
    then have "take (length h2) h' = h2"
    proof
      assume "h' = h2 \<and> r = r0"
      then show ?thesis by simp
    next
      assume "\<exists>exs reports. mapExamples H p h2 exs = Some (Inr (h', reports))
          \<and> r = r0\<lparr> testReport := Some reports \<rparr>"
      then obtain exs reports where "mapExamples H p h2 exs = Some (Inr (h', reports))" by blast
      from mapExamples_frame [OF owned_base this] show ?thesis by (simp add: frame_base)
    qed
    then have "prefix h2 h'" by (metis take_is_prefix)
    with p12 have "prefix h1 h'" by (rule prefix_order.trans)
    then have "take (length h1) h' = h1" by (rule take_prefix)
    with e r0 show ?thesis by auto
  qed
  from a b show ?thesis by blast
qed

theorem dry_run_witness:
  "optionOf None opt_enableActions = None
   \<and> cloneInput sampleHeap sampleInput = Inr (sampleClone, Ref 3)
   \<and> returned (runProgram sampleHost discountProgram sampleHeap sampleInput None)
   \<and> map_option (take (length sampleClone))
        (finalHeap (runProgram sampleHost discountProgram sampleHeap sampleInput None))
       = Some sampleClone
   \<and> map_option resultState
        (finalResult (runProgram sampleHost discountProgram sampleHeap sampleInput None))
       = Some (Ref 3)
   \<and> map_option actions
        (finalResult (runProgram sampleHost discountProgram sampleHeap sampleInput None))
       = Some []
   \<and> map_option conflictWarnings
        (finalResult (runProgram sampleHost discountProgram sampleHeap sampleInput None))
       = Some None"
proof -
  have en: "optionOf None opt_enableActions = None" by (simp add: optionOf_def)
  have ex: "optionOf None opt_evaluateExamples \<noteq> Some True" by (simp add: optionOf_def)
  note d = dry_run [OF en sample_clone, of sampleHost discountProgram]
  from d ex have ret: "returned (runProgram sampleHost discountProgram sampleHeap sampleInput None)"
    by blast
  then obtain h' r where
    run: "runProgram sampleHost discountProgram sampleHeap sampleInput None = Some (Inr (h', r))"
    by (rule returnedE)
  with d have "resultState r = Ref 3 \<and> take (length sampleClone) h' = sampleClone
     \<and> actions r = [] \<and> conflictWarnings r = None" by blast
  with en sample_clone ret finalE [OF run] show ?thesis by simp
qed

subsection \<open>The success flag\<close>

lemma constraint_fold:
  "failed (foldl (constraintStep H h data) rep cl) =
     failed rep @ map (\<lambda>c. \<lparr> cr_constraint = c, cr_passed = False,
                               cr_trace = evaluateCondition H h (constraint_assert c) data \<rparr>)
                    (filter (\<lambda>c. \<not> result (evaluateCondition H h (constraint_assert c) data)) cl)
   \<and> errorCount (foldl (constraintStep H h data) rep cl) =
     errorCount rep + length (filter (\<lambda>c. \<not> result (evaluateCondition H h (constraint_assert c) data)
                                           \<and> severityOf c = ''error'') cl)"
  by (induction cl arbitrary: rep) (auto simp: constraintStep_def Let_def)

lemma hasErrors_iff:
  "hasErrors (evaluateConstraints H h (constraints p) data) \<longleftrightarrow>
     (\<exists>c\<in>set (constraintsOf p). severityOf c = ''error''
        \<and> \<not> result (evaluateCondition H h (constraint_assert c) data))"
proof (cases "constraints p")
  case None
  then show ?thesis by (simp add: evaluateConstraints_def emptyReport_def constraintsOf_def)
next
  case (Some cl)
  have "(0 < length (filter P cl)) = (\<exists>c\<in>set cl. P c)" for P :: "Constraint \<Rightarrow> bool"
    by (induction cl) auto
  with Some show ?thesis
    by (auto simp: evaluateConstraints_def constraint_fold emptyReport_def constraintsOf_def Let_def)
qed

lemma runFrom_finish:
  assumes "runFrom H p h st opts = Some (Inr (h2, r0))"
  shows "resultState r0 = st
     \<and> success r0 = (\<not> (hasErrors (evaluateConstraints H h2 (constraints p) st) \<or> hitRuleLimit r0))
     \<and> constraintReport r0 = evaluateConstraints H h2 (constraints p) st"
  using assms
  by (auto simp: runFrom_def finish_def Let_def split: sum.splits option.splits)

text \<open>
  Claim C2, as stated, fails: with a cap of one firing the run of \<open>discountProgram\<close>
  reaches the cap, no constraint fails, and \<^verbatim>\<open>success\<close> is false.
\<close>

theorem success_false_at_cap:
  "map_option success
     (finalResult (runProgram sampleHost discountProgram sampleHeap sampleInput (Some cappedOptions)))
     = Some False
   \<and> map_option (failed \<circ> constraintReport)
     (finalResult (runProgram sampleHost discountProgram sampleHeap sampleInput (Some cappedOptions)))
     = Some []
   \<and> map_option hitRuleLimit
     (finalResult (runProgram sampleHost discountProgram sampleHeap sampleInput (Some cappedOptions)))
     = Some True"
  by code_simp

text \<open>
  Claim C2, amended. When \<^verbatim>\<open>runProgram\<close> returns, the constraint report is the evaluation
  of the constraints on the final state (in the store \<open>hs\<close> at the end of the passes,
  which the returned store extends), and \<^verbatim>\<open>success\<close> is false exactly when a constraint
  of severity \<^verbatim>\<open>error\<close> (the default) fails on that state or the rule-firing cap was
  reached. A failing constraint of any other severity does not make it false.
\<close>

theorem success_iff:
  assumes run: "runProgram H p h input opts = Some (Inr (h', r))"
  shows "\<exists>hs. prefix hs h'
     \<and> constraintReport r = evaluateConstraints H hs (constraints p) (resultState r)
     \<and> (success r \<longleftrightarrow>
          \<not> (\<exists>c\<in>set (constraintsOf p). severityOf c = ''error''
                \<and> \<not> result (evaluateCondition H hs (constraint_assert c) (resultState r)))
          \<and> \<not> hitRuleLimit r)"
proof -
  from run obtain h1 st h2 r0 where
    c: "cloneInput h input = Inr (h1, st)" and
    f: "runFrom H p h1 st opts = Some (Inr (h2, r0))" and
    e: "(h' = h2 \<and> r = r0) \<or>
     (\<exists>exs reports. optionOf opts opt_evaluateExamples = Some True \<and> examples p = Some exs
        \<and> mapExamples H p h2 exs = Some (Inr (h', reports))
        \<and> r = r0\<lparr> testReport := Some reports \<rparr>)"
    by (rule runProgram_parts)
  from e have "take (length h2) h' = h2"
  proof
    assume "h' = h2 \<and> r = r0"
    then show ?thesis by simp
  next
    assume "\<exists>exs reports. optionOf opts opt_evaluateExamples = Some True \<and> examples p = Some exs
        \<and> mapExamples H p h2 exs = Some (Inr (h', reports))
        \<and> r = r0\<lparr> testReport := Some reports \<rparr>"
    then obtain exs reports where "mapExamples H p h2 exs = Some (Inr (h', reports))" by blast
    from mapExamples_frame [OF owned_base this] show ?thesis by (simp add: frame_base)
  qed
  then have pre: "prefix h2 h'" by (metis take_is_prefix)
  from e have same: "resultState r = resultState r0" "success r = success r0"
    "hitRuleLimit r = hitRuleLimit r0" "constraintReport r = constraintReport r0" by auto
  from runFrom_finish [OF f] same hasErrors_iff [of H h2 p st] pre
  show ?thesis by auto
qed

theorem success_iff_witness:
  "returned (runProgram sampleHost discountProgram sampleHeap sampleInput (Some liveOptions))
   \<and> map_option success
     (finalResult (runProgram sampleHost discountProgram sampleHeap sampleInput (Some liveOptions)))
     = Some True"
proof -
  have ret: "returned (runProgram sampleHost discountProgram sampleHeap sampleInput (Some liveOptions))"
    by code_simp
  then obtain h' r where
    run: "runProgram sampleHost discountProgram sampleHeap sampleInput (Some liveOptions)
       = Some (Inr (h', r))" by (rule returnedE)
  from success_iff [OF run] obtain hs where
    hs: "constraintReport r = evaluateConstraints sampleHost hs (constraints discountProgram) (resultState r)"
    "success r \<longleftrightarrow>
          \<not> (\<exists>c\<in>set (constraintsOf discountProgram). severityOf c = ''error''
                \<and> \<not> result (evaluateCondition sampleHost hs (constraint_assert c) (resultState r)))
          \<and> \<not> hitRuleLimit r" by blast
  have "map_option (\<lambda>r. hasErrors (constraintReport r) \<or> hitRuleLimit r)
     (finalResult (runProgram sampleHost discountProgram sampleHeap sampleInput (Some liveOptions)))
     = Some False" by code_simp
  with finalE [OF run] have "\<not> hasErrors (constraintReport r)" "\<not> hitRuleLimit r" by simp_all
  with hs hasErrors_iff [of sampleHost hs discountProgram "resultState r"]
  have "success r" by simp
  with ret finalE [OF run] show ?thesis by simp
qed


subsection \<open>Rule order\<close>

lemma ruleCompare_le: "ruleCompare H a b \<le> 0 \<longleftrightarrow> ruleBefore H a b"
proof (cases "priorityOf a = priorityOf b")
  case True
  then show ?thesis by (simp add: ruleCompare_def ruleBefore_def)
next
  case False
  then have "ruleCompare H a b = priorityOf b - priorityOf a" by (simp add: ruleCompare_def)
  moreover have "(priorityOf b - priorityOf a \<le> 0) = (priorityOf b < priorityOf a)"
    using False by linarith
  ultimately show ?thesis using False by (simp add: ruleBefore_def)
qed

lemma ruleBefore_total: "consistentCollation H \<Longrightarrow> ruleBefore H a b \<or> ruleBefore H b a"
proof -
  assume "consistentCollation H"
  then have "localeCompare H (rule_id a) (rule_id b) \<le> 0
      \<or> localeCompare H (rule_id b) (rule_id a) \<le> 0"
    unfolding consistentCollation_def by blast
  moreover have "priorityOf a < priorityOf b \<or> priorityOf a = priorityOf b
      \<or> priorityOf b < priorityOf a" by linarith
  ultimately show ?thesis unfolding ruleBefore_def by metis
qed

lemma ruleBefore_trans:
  "consistentCollation H \<Longrightarrow> ruleBefore H a b \<Longrightarrow> ruleBefore H b c \<Longrightarrow> ruleBefore H a c"
proof -
  assume c: "consistentCollation H" and ab: "ruleBefore H a b" and bc: "ruleBefore H b c"
  from ab bc have le: "priorityOf a \<ge> priorityOf b" "priorityOf b \<ge> priorityOf c"
    by (auto simp: ruleBefore_def)
  show ?thesis
  proof (cases "priorityOf a > priorityOf c")
    case True
    then show ?thesis by (simp add: ruleBefore_def)
  next
    case False
    with le have eq: "priorityOf a = priorityOf b" "priorityOf b = priorityOf c" by simp_all
    with ab bc have "localeCompare H (rule_id a) (rule_id b) \<le> 0"
      "localeCompare H (rule_id b) (rule_id c) \<le> 0" by (simp_all add: ruleBefore_def)
    with c have "localeCompare H (rule_id a) (rule_id c) \<le> 0"
      unfolding consistentCollation_def by blast
    with eq show ?thesis by (simp add: ruleBefore_def)
  qed
qed

lemma set_insertRule: "set (insertRule H x ys) = insert x (set ys)"
  by (induction ys) auto

lemma mset_insertRule: "mset (insertRule H x ys) = add_mset x (mset ys)"
  by (induction ys) auto

lemma sorted_insertRule:
  assumes c: "consistentCollation H"
  shows "sorted_wrt (ruleBefore H) ys \<Longrightarrow> sorted_wrt (ruleBefore H) (insertRule H x ys)"
proof (induction ys)
  case Nil
  then show ?case by simp
next
  case (Cons y ys)
  show ?case
  proof (cases "ruleCompare H x y \<le> 0")
    case True
    then have xy: "ruleBefore H x y" by (simp add: ruleCompare_le)
    with Cons.prems ruleBefore_trans [OF c xy] show ?thesis
      using True by auto
  next
    case False
    then have "\<not> ruleBefore H x y" by (simp add: ruleCompare_le)
    with ruleBefore_total [OF c, of x y] have yx: "ruleBefore H y x" by blast
    with Cons False show ?thesis by (auto simp: set_insertRule)
  qed
qed

lemma sortRules_sorted:
  "consistentCollation H \<Longrightarrow> sorted_wrt (ruleBefore H) (sortRules H rs)"
  unfolding sortRules_def by (induction rs) (auto intro: sorted_insertRule)

lemma sortRules_mset: "mset (sortRules H rs) = mset rs"
  unfolding sortRules_def by (induction rs) (auto simp: mset_insertRule)

lemma executeRule_trace:
  assumes "executeRule H c rule s pr = Inr (s', pr', brk)"
  shows "map rt_ruleId (x_traces s') = map rt_ruleId (x_traces s) @ [rule_id rule]"
proof -
  let ?m = "result (evaluateCondition H (x_heap s) (rule_when rule) (cfg_state c))"
  let ?s1 = "(if ?m then s\<lparr> x_firings := x_firings s + 1 \<rparr> else s)"
  from assms obtain s2 acc t where
    a: "applyActions (cfg_state c) (cfg_enableActions c) (rule_id rule) (ruleActionsOf rule ?m)
          ?s1 ([], [], []) = Inr (s2, acc)"
    and t: "x_traces s' = x_traces s2 @ [t]" "rt_ruleId t = rule_id rule"
    by (auto simp: executeRule_def Let_def split: sum.splits prod.splits if_splits)
  from applyActions_keeps [OF a] have "x_traces s2 = x_traces s" by simp
  with t show ?thesis by simp
qed

lemma ruleLoop_trace:
  "ruleLoop H c rs s pr = Inr (s', pr') \<Longrightarrow>
   \<exists>k. map rt_ruleId (x_traces s') = map rt_ruleId (x_traces s) @ take k (map rule_id rs)"
proof (induction rs arbitrary: s pr)
  case Nil
  then show ?case by simp
next
  case (Cons rule rs)
  from Cons.prems obtain s1 pr1 brk where
    e: "executeRule H c rule s pr = Inr (s1, pr1, brk)"
    by (auto split: sum.splits)
  note t = executeRule_trace [OF e]
  show ?case
  proof (cases brk)
    case True
    with Cons.prems e have "s' = s1" by simp
    with t have "map rt_ruleId (x_traces s') =
        map rt_ruleId (x_traces s) @ take 1 (map rule_id (rule # rs))" by simp
    then show ?thesis by blast
  next
    case False
    with Cons.prems e have "ruleLoop H c rs s1 pr1 = Inr (s', pr')" by simp
    from Cons.IH [OF this] obtain k where
      "map rt_ruleId (x_traces s') = map rt_ruleId (x_traces s1) @ take k (map rule_id rs)"
      by blast
    with t have "map rt_ruleId (x_traces s') =
        map rt_ruleId (x_traces s) @ take (Suc k) (map rule_id (rule # rs))" by simp
    then show ?thesis by blast
  qed
qed

lemma passesOf_snoc: "passesOf xs (ks @ [k]) = passesOf xs ks @ take k xs"
  by (simp add: passesOf_def)

lemma runFrom_trace:
  assumes run: "runFrom H p h st opts = Some (Inr (h', r))"
  shows "\<exists>ks. map rt_ruleId (trace r) = passesOf (map rule_id (sortRules H (rules p))) ks
           \<and> (optionOf opts opt_loopUntilSettled \<noteq> Some True \<longrightarrow> length ks = 1)"
proof -
  let ?c = "runConfig p st opts"
  let ?rs = "sortRules H (rules p)"
  let ?I = "\<lambda>s. \<exists>ks. map rt_ruleId (x_traces s) = passesOf (map rule_id ?rs) ks"
  have step: "?I s1" if i: "?I s" and e: "executePass H ?c ?rs s = Inr (s1, pr1)" for s s1 pr1
  proof -
    from i obtain ks where ks: "map rt_ruleId (x_traces s) = passesOf (map rule_id ?rs) ks" by blast
    from ruleLoop_trace [OF e [unfolded executePass_def]] obtain k where
      "map rt_ruleId (x_traces s1) = map rt_ruleId (x_traces s) @ take k (map rule_id ?rs)" by blast
    with ks have "map rt_ruleId (x_traces s1) = passesOf (map rule_id ?rs) (ks @ [k])"
      by (simp add: passesOf_snoc)
    then show ?thesis by blast
  qed
  from run obtain sp s' where
    e: "executePass H ?c ?rs (initialState h) = Inr sp"
    and l: "passLoop H ?c ?rs sp = Some (Inr s')"
    and r: "trace r = x_traces s'"
    by (auto simp: runFrom_def Let_def finish_def split: sum.splits option.splits)
  from ruleLoop_trace [of H ?c ?rs "initialState h" _ "fst sp" "snd sp"] e obtain k where
    k: "map rt_ruleId (x_traces (fst sp)) = take k (map rule_id ?rs)"
    by (auto simp: executePass_def initialState_def)
  then have k1: "map rt_ruleId (x_traces (fst sp)) = passesOf (map rule_id ?rs) [k]"
    by (simp add: passesOf_def)
  then have i1: "?I (fst sp)" by blast
  show ?thesis
  proof (cases "optionOf opts opt_loopUntilSettled = Some True")
    case True
    from passLoop_invariant [of H ?c ?rs sp "Inr s'" ?I s', OF l step i1] r
    show ?thesis using True by simp
  next
    case False
    then have "\<not> cfg_loopUntilSettled ?c"
      by (auto simp: runConfig_def split: option.splits)
    with l have "s' = fst sp" by (subst (asm) passLoop.simps) simp
    with k1 r have "map rt_ruleId (trace r) = passesOf (map rule_id ?rs) [k] \<and> length [k] = 1"
      by simp
    then show ?thesis by blast
  qed
qed

lemma precedesFrom_iff:
  "precedesFrom seen x y zs \<longleftrightarrow> (\<forall>i<length zs. zs ! i = y \<longrightarrow> seen \<or> (\<exists>j<i. zs ! j = x))"
proof (induction zs arbitrary: seen)
  case Nil
  show ?case by simp
next
  case (Cons z zs)
  show ?case
  proof
    assume l: "precedesFrom seen x y (z # zs)"
    then have h: "z = y \<longrightarrow> seen" and
      t: "\<forall>i<length zs. zs ! i = y \<longrightarrow> (seen \<or> z = x) \<or> (\<exists>j<i. zs ! j = x)"
      using Cons.IH [of "seen \<or> z = x"] by simp_all
    show "\<forall>i<length (z # zs). (z # zs) ! i = y \<longrightarrow> seen \<or> (\<exists>j<i. (z # zs) ! j = x)"
    proof (intro allI impI)
      fix i assume i: "i < length (z # zs)" and y: "(z # zs) ! i = y"
      show "seen \<or> (\<exists>j<i. (z # zs) ! j = x)"
      proof (cases i)
        case 0
        with y h show ?thesis by simp
      next
        case (Suc n)
        with i y t have "(seen \<or> z = x) \<or> (\<exists>j<n. zs ! j = x)" by simp
        then consider "seen" | "z = x" | j where "j < n" "zs ! j = x" by blast
        then show ?thesis
        proof cases
          case 1 then show ?thesis by simp
        next
          case 2
          then have "0 < i \<and> (z # zs) ! 0 = x" using Suc by simp
          then show ?thesis by blast
        next
          case 3
          then have "Suc j < i \<and> (z # zs) ! Suc j = x" using Suc by simp
          then show ?thesis by blast
        qed
      qed
    qed
  next
    assume r: "\<forall>i<length (z # zs). (z # zs) ! i = y \<longrightarrow> seen \<or> (\<exists>j<i. (z # zs) ! j = x)"
    from r [rule_format, of 0] have h: "z = y \<longrightarrow> seen" by simp
    have "\<forall>i<length zs. zs ! i = y \<longrightarrow> (seen \<or> z = x) \<or> (\<exists>j<i. zs ! j = x)"
    proof (intro allI impI)
      fix i assume i: "i < length zs" and y: "zs ! i = y"
      from r [rule_format, of "Suc i"] i y have "seen \<or> (\<exists>j<Suc i. (z # zs) ! j = x)" by simp
      then show "(seen \<or> z = x) \<or> (\<exists>j<i. zs ! j = x)"
      proof
        assume seen then show ?thesis by simp
      next
        assume "\<exists>j<Suc i. (z # zs) ! j = x"
        then obtain j where j: "j < Suc i" "(z # zs) ! j = x" by blast
        show ?thesis
        proof (cases j)
          case 0 with j show ?thesis by simp
        next
          case (Suc m)
          with j have "m < i \<and> zs ! m = x" by simp
          then show ?thesis by blast
        qed
      qed
    qed
    with h Cons.IH [of "seen \<or> z = x"] show "precedesFrom seen x y (z # zs)" by simp
  qed
qed

lemma precedesFrom_weaken: "precedesFrom seen x y zs \<Longrightarrow> precedesFrom True x y zs"
  by (induction zs arbitrary: seen) auto

lemma precedesFrom_append:
  "precedesFrom seen x y xs \<Longrightarrow> precedesFrom False x y ys \<Longrightarrow> precedesFrom seen x y (xs @ ys)"
proof (induction xs arbitrary: seen)
  case Nil
  then show ?case by (cases seen) (auto dest: precedesFrom_weaken)
next
  case (Cons z zs)
  then show ?case by simp
qed

lemma precedes_passes:
  assumes "\<And>k. precedes x y (take k zs)"
  shows "precedes x y (passesOf zs ks)"
  unfolding precedes_def passesOf_def
  by (induction ks) (use assms in \<open>auto simp: precedes_def intro: precedesFrom_append\<close>)

lemma precedes_sorted:
  assumes srt: "sorted_wrt (ruleBefore H) rs" and dist: "distinct (map rule_id rs)"
    and a: "a \<in> set rs" and b: "b \<in> set rs" and lt: "priorityOf b < priorityOf a"
  shows "precedes (rule_id a) (rule_id b) (take k (map rule_id rs))"
  unfolding precedes_def precedesFrom_iff
proof (intro allI impI)
  fix i assume i: "i < length (take k (map rule_id rs))"
    and y: "take k (map rule_id rs) ! i = rule_id b"
  from i have ik: "i < k" and il: "i < length rs" by simp_all
  from y ik il have idi: "rule_id (rs ! i) = rule_id b" by simp
  from b obtain m where m: "m < length rs" "rs ! m = b" by (auto simp: in_set_conv_nth)
  from dist m il idi have "m = i"
    by (metis distinct_conv_nth length_map nth_map)
  with m have bi: "rs ! i = b" by simp
  from a obtain n where n: "n < length rs" "rs ! n = a" by (auto simp: in_set_conv_nth)
  have "n < i"
  proof (rule ccontr)
    assume "\<not> n < i"
    moreover from lt n bi have "n \<noteq> i" by auto
    ultimately have "i < n" by simp
    from sorted_wrt_nth_less [OF srt this n(1)] bi n have "ruleBefore H b a" by simp
    with lt show False by (auto simp: ruleBefore_def)
  qed
  with n ik have "n < i \<and> take k (map rule_id rs) ! n = rule_id a" by simp
  then show "False \<or> (\<exists>j<i. take k (map rule_id rs) ! j = rule_id a)" by blast
qed

lemma sampleHost_collation: "consistentCollation sampleHost"
proof -
  have le: "localeCompare sampleHost x y \<le> 0 \<longleftrightarrow> x \<le> y" for x y
    by (auto simp: sampleHost_def)
  show ?thesis
    unfolding consistentCollation_def le
    by (meson linear order_trans)
qed

lemma sample_sorted: "sortRules sampleHost (rules discountProgram) = [discountRule, vipRule]"
  by code_simp

text \<open>
  Claim C6. For a host with a consistent collation: \<^verbatim>\<open>sortRules\<close> returns the rules of the
  program, each once, in descending priority (unset is 0) with ties in ascending order
  of the rule ids; the rule traces of a returned result list, pass after pass, the rules
  in that order (each pass an initial part of the sorted rules, and exactly one pass
  unless \<^verbatim>\<open>loopUntilSettled\<close> is set); and, the rule ids being unique, every trace of a
  rule is preceded by a trace of each rule of higher priority, in every mode.
\<close>

theorem rules_in_priority_order:
  assumes coll: "consistentCollation H"
    and run: "runProgram H p h input opts = Some (Inr (h', r))"
  shows "sorted_wrt (ruleBefore H) (sortRules H (rules p))
     \<and> mset (sortRules H (rules p)) = mset (rules p)
     \<and> (\<exists>ks. map rt_ruleId (trace r) = passesOf (map rule_id (sortRules H (rules p))) ks
           \<and> (optionOf opts opt_loopUntilSettled \<noteq> Some True \<longrightarrow> length ks = 1))
     \<and> (distinct (map rule_id (rules p)) \<longrightarrow>
          (\<forall>a\<in>set (rules p). \<forall>b\<in>set (rules p). priorityOf b < priorityOf a \<longrightarrow>
             precedes (rule_id a) (rule_id b) (map rt_ruleId (trace r))))"
proof -
  let ?rs = "sortRules H (rules p)"
  from run obtain h1 st h2 r0 where
    f: "runFrom H p h1 st opts = Some (Inr (h2, r0))" and
    e: "(h' = h2 \<and> r = r0) \<or>
     (\<exists>exs reports. optionOf opts opt_evaluateExamples = Some True \<and> examples p = Some exs
        \<and> mapExamples H p h2 exs = Some (Inr (h', reports))
        \<and> r = r0\<lparr> testReport := Some reports \<rparr>)"
    by (rule runProgram_parts)
  from e have tr: "trace r = trace r0" by auto
  note srt = sortRules_sorted [OF coll, of "rules p"]
  note ms = sortRules_mset [of H "rules p"]
  from runFrom_trace [OF f] tr obtain ks where
    ks: "map rt_ruleId (trace r) = passesOf (map rule_id ?rs) ks"
    "optionOf opts opt_loopUntilSettled \<noteq> Some True \<longrightarrow> length ks = 1" by auto
  have "precedes (rule_id a) (rule_id b) (map rt_ruleId (trace r))"
    if d: "distinct (map rule_id (rules p))" and a: "a \<in> set (rules p)" and b: "b \<in> set (rules p)"
      and lt: "priorityOf b < priorityOf a" for a b
  proof -
    have "mset (map rule_id ?rs) = mset (map rule_id (rules p))" using ms by (metis mset_map)
    with d have d': "distinct (map rule_id ?rs)" by (metis mset_eq_imp_distinct_iff)
    from a b ms have a': "a \<in> set ?rs" and b': "b \<in> set ?rs" by (metis set_mset_mset)+
    from precedes_passes [of "rule_id a" "rule_id b" "map rule_id ?rs" ks]
      precedes_sorted [OF srt d' a' b' lt] ks(1)
    show ?thesis by simp
  qed
  with srt ms ks show ?thesis by blast
qed

theorem rules_in_priority_order_witness:
  "consistentCollation sampleHost
   \<and> returned (runProgram sampleHost discountProgram sampleHeap sampleInput (Some liveOptions))
   \<and> rules discountProgram = [vipRule, discountRule]
   \<and> sorted_wrt (ruleBefore sampleHost) [discountRule, vipRule]
   \<and> map_option (map rt_ruleId \<circ> trace)
        (finalResult (runProgram sampleHost discountProgram sampleHeap sampleInput
           (Some liveOptions)))
       = Some [''discount-high-value'', ''vip-route'']
   \<and> distinct (map rule_id (rules discountProgram))
   \<and> priorityOf vipRule < priorityOf discountRule
   \<and> precedes ''discount-high-value'' ''vip-route'' [''discount-high-value'', ''vip-route'']"
proof -
  have ret: "returned (runProgram sampleHost discountProgram sampleHeap sampleInput (Some liveOptions))"
    by code_simp
  then obtain h' r where
    run: "runProgram sampleHost discountProgram sampleHeap sampleInput (Some liveOptions)
       = Some (Inr (h', r))" by (rule returnedE)
  have ids: "map_option (map rt_ruleId \<circ> trace)
        (finalResult (runProgram sampleHost discountProgram sampleHeap sampleInput
           (Some liveOptions)))
       = Some [''discount-high-value'', ''vip-route'']"
    by code_simp
  with finalE [OF run] have tr: "map rt_ruleId (trace r) = [''discount-high-value'', ''vip-route'']"
    by simp
  have rs: "rules discountProgram = [vipRule, discountRule]" by (simp add: discountProgram_def)
  have d: "distinct (map rule_id (rules discountProgram))"
    by (simp add: rs vipRule_def discountRule_def)
  have lt: "priorityOf vipRule < priorityOf discountRule"
    by (simp add: priorityOf_def vipRule_def discountRule_def)
  have ida: "rule_id discountRule = ''discount-high-value''" by (simp add: discountRule_def)
  have idb: "rule_id vipRule = ''vip-route''" by (simp add: vipRule_def)
  note t = rules_in_priority_order [OF sampleHost_collation run]
  from t sample_sorted have s: "sorted_wrt (ruleBefore sampleHost) [discountRule, vipRule]" by simp
  from t d lt rs have "precedes (rule_id discountRule) (rule_id vipRule) (map rt_ruleId (trace r))"
    by simp
  with tr ida idb have
    p: "precedes ''discount-high-value'' ''vip-route'' [''discount-high-value'', ''vip-route'']"
    by simp
  from sampleHost_collation ret rs s ids d lt p show ?thesis by blast
qed

subsection \<open>A run that never leaves the pass loop\<close>

lemma passLoop_diverges:
  assumes step: "\<And>sp. J sp \<Longrightarrow> \<exists>sp'. executePass H c rs (fst sp) = Inr sp' \<and> J sp'"
    and cont: "\<And>sp. J sp \<Longrightarrow> cfg_loopUntilSettled c \<and> mutated (snd sp) \<and> \<not> stopEarly (snd sp)
                 \<and> \<not> x_hitRuleLimit (fst sp)"
    and init: "J sp"
  shows "passLoop H c rs sp = None"
proof (rule ccontr)
  assume "passLoop H c rs sp \<noteq> None"
  then obtain y where y: "passLoop H c rs sp = Some y" by blast
  have "H0 = H \<longrightarrow> c0 = c \<longrightarrow> rs0 = rs \<longrightarrow> J sp0 \<longrightarrow> False"
    if "passLoop H0 c0 rs0 sp0 = Some y0" for H0 c0 rs0 sp0 y0
    using that
  proof (induction rule: passLoop.raw_induct [rotated 1, consumes 1])
    case (1 loop H0 c0 rs0 sp0 y0)
    show ?case
    proof (intro impI)
      assume eq: "H0 = H" "c0 = c" "rs0 = rs" and j: "J sp0"
      from step [OF j] obtain sp' where e: "executePass H c rs (fst sp0) = Inr sp'" and j': "J sp'"
        by blast
      from "1.hyps" eq cont [OF j] e have "loop H c rs sp' = Some y0" by simp
      from "1.IH" [OF this] j' show False by simp
    qed
  qed
  from this [OF y] init show False by simp
qed

lemma retry_lookup:
  assumes "3 < length h" "h ! 3 = Obj [(''order'', Ref 2)]" "h ! 2 = Obj kvs"
  shows "getPathValue h (Ref 3) ''order.total'' = lookupProp kvs ''total''"
    "getPathValue h (Ref 3) ''order.checks'' = lookupProp kvs ''checks''"
    "setPathValue h (Ref 3) ''order.checks'' v =
       Inr (h[2 := Obj (AList.update ''checks'' v kvs)], lookupProp kvs ''checks'')"
  using assms
  by (simp_all add: getPathValue_def splitPath_def getProp_def cellAt_def lookupProp_def
        setPathValue_def setProp_def)

lemma retry_pass:
  assumes j: "retryInv sp"
  shows "\<exists>sp'. executePass H retryConfig [retryRule] (fst sp) = Inr sp' \<and> retryInv sp'"
proof -
  obtain s pr where sp: "sp = (s, pr)" by (cases sp)
  from j sp obtain kvs where
    s: "x_firings s = 0" "\<not> x_hitRuleLimit s" "3 < length (x_heap s)"
       "x_heap s ! 3 = Obj [(''order'', Ref 2)]" "x_heap s ! 2 = Obj kvs"
       "map_of kvs ''total'' = Some (Num 120)"
    by (auto simp: retryInv_def split: cell.splits)
  note l = retry_lookup [OF s(3,4,5)]
  have tot: "lookupProp kvs ''total'' = Num 120" using s(6) by (simp add: lookupProp_def)
  have m: "\<not> result (evaluateCondition H (x_heap s) (rule_when retryRule) (cfg_state retryConfig))"
    by (simp add: retryRule_def retryConfig_def evaluateOperand_def l tot evaluateComparison_def
          isNumber_def numOf_def Let_def)
  let ?cur = "lookupProp kvs ''checks''"
  let ?next = "(if isNumber ?cur then Num (numOf ?cur + 1) else Num 1)"
  let ?h' = "(x_heap s)[2 := Obj (AList.update ''checks'' ?next kvs)]"
  have ap: "\<exists>r. applyAction (IncrementA ''order.checks'' 1) (x_heap s) (Ref 3) rid aid True pw =
      Inr (?h', recordWrite pw ''order.checks'' aid rid, r) \<and> ar_diffs r \<noteq> []" for rid aid pw
    by (simp add: l Let_def)
  let ?aid = "''act-'' @ showNat (length (x_actions s) + length (fst (([], [], []) :: ruleLocals)) + 1)"
  from ap [of "rule_id retryRule" ?aid "x_priorWrites s"] obtain r where
    r: "applyAction (IncrementA ''order.checks'' 1) (x_heap s) (Ref 3) (rule_id retryRule) ?aid
          True (x_priorWrites s) =
        Inr (?h', recordWrite (x_priorWrites s) ''order.checks'' ?aid (rule_id retryRule), r)"
    and rd: "ar_diffs r \<noteq> []" by blast
  have "\<exists>s' acc. applyActions (Ref 3) True (rule_id retryRule) [IncrementA ''order.checks'' 1] s
           ([], [], []) = Inr (s', acc) \<and> x_heap s' = ?h' \<and> fst (snd acc) \<noteq> []"
    using r rd by (simp add: Let_def del: applyAction.simps)
  then obtain s2 acc where
    a: "applyActions (Ref 3) True (rule_id retryRule) [IncrementA ''order.checks'' 1] s
           ([], [], []) = Inr (s2, acc)" and h2: "x_heap s2 = ?h'" and d: "fst (snd acc) \<noteq> []"
    by blast
  from applyActions_keeps [OF a] s have k: "x_firings s2 = 0" "\<not> x_hitRuleLimit s2" by simp_all
  have ra: "ruleActionsOf retryRule False = [IncrementA ''order.checks'' 1]"
    by (simp add: ruleActionsOf_def retryRule_def)
  obtain ats sds ws where acc: "acc = (ats, sds, ws)" by (cases acc)
  with d have sds: "sds \<noteq> []" by simp
  have e: "\<exists>s3 pr3. executeRule H retryConfig retryRule s
              \<lparr> fired = False, mutated = False, stopEarly = False \<rparr> = Inr (s3, pr3, False)
            \<and> x_heap s3 = ?h' \<and> x_firings s3 = 0 \<and> \<not> x_hitRuleLimit s3
            \<and> mutated pr3 \<and> \<not> stopEarly pr3"
    using m a ra acc sds k h2
    by (simp add: executeRule_def Let_def retryConfig_def)
  then obtain s3 pr3 where
    e3: "executeRule H retryConfig retryRule s
              \<lparr> fired = False, mutated = False, stopEarly = False \<rparr> = Inr (s3, pr3, False)"
    and p3: "x_heap s3 = ?h'" "x_firings s3 = 0" "\<not> x_hitRuleLimit s3" "mutated pr3"
      "\<not> stopEarly pr3" by blast
  have pass: "executePass H retryConfig [retryRule] s = Inr (s3, pr3)"
    using e3 by (simp add: executePass_def)
  have "map_of (AList.update ''checks'' ?next kvs) ''total'' = Some (Num 120)"
    using s(6) by (simp add: update_conv')
  with p3 s(3,4) have "retryInv (s3, pr3)"
    by (simp add: retryInv_def)
  with pass sp show ?thesis by auto
qed

lemma retry_cont:
  "retryInv sp \<Longrightarrow> cfg_loopUntilSettled retryConfig \<and> mutated (snd sp) \<and> \<not> stopEarly (snd sp)
                 \<and> \<not> x_hitRuleLimit (fst sp)"
  by (simp add: retryInv_def retryConfig_def)

text \<open>
  Claim C1 fails on the code. With \<^verbatim>\<open>enableActions\<close> and \<^verbatim>\<open>loopUntilSettled\<close> set, the run
  of \<open>retryProgram\<close> on the sample payload never returns: its one rule never matches, so
  the firing counter stays at 0 and never reaches the cap of 1000, no early stop occurs,
  and the \<^verbatim>\<open>increment\<close> of its \<^verbatim>\<open>else\<close> branch records a state diff in every pass, so
  no pass is settled.
\<close>

theorem pass_loop_never_ends:
  "runProgram sampleHost retryProgram sampleHeap sampleInput (Some settleOptions) = None"
proof -
  have c: "runConfig retryProgram (Ref 3) (Some settleOptions) = retryConfig"
    by (simp add: runConfig_def retryConfig_def settleOptions_def optionOf_def normalizeMode_def
          retryProgram_def)
  have rs: "sortRules sampleHost (rules retryProgram) = [retryRule]"
    by (simp add: sortRules_def retryProgram_def)
  have i0: "retryInv (initialState sampleClone,
              \<lparr> fired = False, mutated = True, stopEarly = False \<rparr>)"
    by (simp add: retryInv_def initialState_def sampleClone_def sampleHeap_def)
  from retry_pass [OF i0, of sampleHost] obtain sp where
    e: "executePass sampleHost retryConfig [retryRule] (initialState sampleClone) = Inr sp"
    and j: "retryInv sp" by auto
  have "passLoop sampleHost retryConfig [retryRule] sp = None"
    by (rule passLoop_diverges [of retryInv, OF retry_pass retry_cont j])
  with e c rs have "runFrom sampleHost retryProgram sampleClone (Ref 3) (Some settleOptions) = None"
    by (simp add: runFrom_def)
  then show ?thesis by (simp add: runProgram_def sample_clone)
qed

subsection \<open>Rule coverage\<close>

text \<open>
  Claim C3 fails on the code. For a program with an example, \<^verbatim>\<open>assessRuleCoverage\<close> runs
  the first example and then raises a TypeError on \<^verbatim>\<open>result.firedRules.forEach\<close>: it
  returns no coverage records.
\<close>

theorem coverage_raises:
  "assessRuleCoverage sampleHost coverageProgram sampleHeap = Some (Inl TypeError)"
  by code_simp

subsection \<open>Repeated calls\<close>

text \<open>
  Every step of a run commutes with the move of its cells: what the run reads and writes in
  the moved store is the move of what it reads and writes in the original one.
\<close>

lemma shiftVal_simps [simp]:
  "shiftVal n d Undefined = Undefined" "shiftVal n d Null = Null"
  "shiftVal n d (Bool b) = Bool b" "shiftVal n d (Num x) = Num x" "shiftVal n d (Str s) = Str s"
  "n \<le> a \<Longrightarrow> shiftVal n d (Ref a) = Ref (a + d)"
  by (simp_all add: shiftVal_def)



lemma length_relocHeap: "n \<le> length h \<Longrightarrow> length (relocHeap n G h) = length h + length G"
  by (simp add: relocHeap_def)





















lemma shift_new: "n \<le> length h \<Longrightarrow> shiftVal n (length G) (Ref (length h)) = Ref (length (relocHeap n G h))"
  by (simp add: length_relocHeap)


















lemma shiftVal_const_iff [simp]:
  "shiftVal n d v = Bool b \<longleftrightarrow> v = Bool b"
  "shiftVal n d v = Num x \<longleftrightarrow> v = Num x"
  "shiftVal n d v = Str s \<longleftrightarrow> v = Str s"
  by (cases v; simp add: shiftVal_def)+

lemma ref_case_shift:
  "(case shiftVal n d v of Ref a \<Rightarrow> b | _ \<Rightarrow> False) = (case v of Ref a \<Rightarrow> b | _ \<Rightarrow> False)"
  by (cases v) (simp_all add: shiftVal_def)
















end
